theory Spec2Isabelle
  imports Main "HOL-Library.Sublist"
begin

section \<open>Data model\<close>

text \<open>
  The processor of \<^verbatim>\<open>processor/processor.go\<close> builds a graph of \<^verbatim>\<open>*types.Type\<close> nodes that point
  at each other and are mutated in place through those pointers. The model keeps the nodes
  in an explicit store: an address is an index into the list \<open>heap\<close>, a nil pointer is \<open>None\<close>.

  The package \<^verbatim>\<open>types\<close> (the declaration of \<^verbatim>\<open>types.Type\<close>, \<^verbatim>\<open>types.Field\<close>, \<^verbatim>\<open>types.Kind\<close>,
  \<^verbatim>\<open>types.Key\<close> and \<^verbatim>\<open>TypeMap.InlineTypes\<close>) is not among the sources. The records below hold the
  fields the processor, its test and the renderer read and write; the kinds are the constants
  those files name.
\<close>

datatype Kind =
    AliasKind | BasicKind | InterfaceKind | MapKind | PointerKind
  | SliceKind | ArrayKind | StructKind | UnknownKind | UnsupportedKind

type_synonym addr = nat

text \<open>\<open>FieldType\<close> is the pointer \<^verbatim>\<open>Field.Type\<close>; the other names are those of the source, the
  clashing ones prefixed.\<close>

record Field =
  FieldName :: string
  FieldDoc :: string
  FieldType :: "addr option"
  Embedded :: bool
  Inlined :: bool

record Type =
  ID :: string
  Name :: string
  Package :: string
  Doc :: string
  GVK :: "(string \<times> string \<times> string) option"
  Kind :: Kind
  Imported :: bool
  UnderlyingType :: "addr option"
  KeyType :: "addr option"
  ValueType :: "addr option"
  Fields :: "Field list"
  References :: "addr list"

text \<open>
  A type descriptor of \<^verbatim>\<open>go/types\<close>, as the processor's type switch distinguishes it.
  \<open>Named pk n\<close> is the declared type \<open>n\<close> of the package with path \<open>pk\<close> (an empty path for the
  universe scope); its underlying type is looked up in the environment, so that a declaration
  may refer to itself. A struct literal, an interface and every other kind of type
  (arrays, channels, signatures, ...) carry what \<^verbatim>\<open>go/types\<close> prints for them: fixed text, and
  the names of the declared types they mention, each of which is written with or without its
  package, as the qualifier decides. There is no
  nil descriptor: \<^verbatim>\<open>mkType\<close> calls \<^verbatim>\<open>t.String()\<close> first, which panics on a nil interface, so
  the only caller that can pass nil (\<^verbatim>\<open>findAPITypes\<close>) models that panic, and
  \<^verbatim>\<open>processStructFields\<close> skips a nil field type before the call.
\<close>

datatype piece = Text string | TypeName string string

datatype gotype =
    Named string string
  | Struct "piece list"
  | Pointer gotype
  | Slice gotype
  | Map gotype gotype
  | Basic string
  | Interface "piece list"
  | Other "piece list"

text \<open>
  What the marker collector and the parser report about a declared type and its members
  (\<^verbatim>\<open>markers.TypeInfo\<close>, \<^verbatim>\<open>markers.FieldInfo\<close>): \<open>TagJSON\<close> is \<^verbatim>\<open>f.Tag.Lookup("json")\<close>,
  \<open>FieldInfoType\<close> is \<^verbatim>\<open>pkg.TypesInfo.TypeOf(f.RawField.Type)\<close> (nil is \<open>None\<close>), \<open>InfoRawDoc\<close> is
  the text of \<^verbatim>\<open>info.RawDecl.Doc\<close> when \<^verbatim>\<open>RawDecl\<close> is not nil, \<open>InfoExported\<close> says that
  \<^verbatim>\<open>info.RawSpec.Name\<close> is not nil and exported, \<open>InfoRoot\<close> that the marker
  \<^verbatim>\<open>kubebuilder:object:root\<close> is present, \<open>InfoType\<close> is \<^verbatim>\<open>TypeOf(info.RawSpec.Name)\<close>.
\<close>

record FieldInfo =
  FieldInfoName :: string
  FieldInfoDoc :: string
  TagJSON :: "string option"
  FieldInfoType :: "gotype option"

record TypeInfo =
  InfoName :: string
  InfoDoc :: string
  InfoRawDoc :: "string option"
  InfoFields :: "FieldInfo list"
  InfoExported :: bool
  InfoRoot :: bool
  InfoType :: "gotype option"

record groupVersionInfo =
  Group :: string
  Version :: string
  doc :: string
  kinds :: "string list"
  gvtypes :: "(string \<times> addr) list"

text \<open>
  The parts of the processor that never change during a run, and the provider it queries:
  the compiled configuration (\<open>maxDepth\<close>, \<open>useRawDocstring\<close> and the three exclusion
  predicates of \<^verbatim>\<open>compiledConfig\<close>, whose file is not among the sources and which are therefore
  parameters), \<^verbatim>\<open>p.parser.LookupType\<close>, \<^verbatim>\<open>pkg.Imports()\<close> and \<^verbatim>\<open>t.Underlying()\<close>. A package is
  identified by its path. \<open>zeroKind\<close> is the zero value of \<^verbatim>\<open>types.Kind\<close> (the kind of a node
  whose \<open>Kind\<close> was never assigned); the order of the constants is not in the sources, so it
  is a parameter too.
\<close>

record env =
  maxDepth :: int
  useRawDocstring :: bool
  shouldIgnoreType :: "string \<Rightarrow> bool"
  shouldIgnoreField :: "string \<Rightarrow> string \<Rightarrow> bool"
  shouldIgnoreGroupVersion :: "string \<Rightarrow> bool"
  zeroKind :: Kind
  LookupType :: "string \<Rightarrow> string \<Rightarrow> TypeInfo option"
  Imports :: "string \<Rightarrow> string \<Rightarrow> string option"
  Underlying :: "string \<Rightarrow> string \<Rightarrow> gotype"

text \<open>
  The mutable state of \<^verbatim>\<open>processor\<close>: the store, the canonical table \<^verbatim>\<open>p.types\<close>, the reverse
  index \<^verbatim>\<open>p.references\<close> and \<^verbatim>\<open>p.groupVersions\<close>. The two maps Go iterates over are association
  lists in insertion order with unique keys; Go's iteration order is unspecified, and the
  properties below speak of membership only.
\<close>

record processor =
  heap :: "Type list"
  types :: "string \<Rightarrow> addr option"
  references :: "(string \<times> string list) list"
  groupVersions :: "((string \<times> string) \<times> groupVersionInfo) list"

text \<open>
  Modelled from the spec: \<^verbatim>\<open>types.Key\<close> (package \<^verbatim>\<open>types\<close> is not among the sources). The spec
  calls the key the identity of a node, an opaque string uniquely identifying the type as
  seen by the source-analysis provider, a pure function of the descriptor: that is the
  field \<open>ID\<close>, which \<^verbatim>\<open>mkType\<close> fills with \<^verbatim>\<open>t.String()\<close> and nothing changes afterwards.
\<close>

definition Key :: "Type \<Rightarrow> string" where
  "Key t = ID t"

section \<open>Creating a node\<close>

text \<open>
  \<^verbatim>\<open>gotypes.TypeString(t, qualifier)\<close>: \<open>Some pkg\<close> is the qualifier
  \<^verbatim>\<open>gotypes.RelativeTo(pkg.Types)\<close>, which leaves the package of a type of \<open>pkg\<close> out and writes
  the path of every other package; \<open>None\<close> is the nil qualifier of \<^verbatim>\<open>t.String()\<close>, which writes
  every path. \<open>qualifiedName\<close> is the name of a declared type as the writer prints it, wherever it
  occurs.
\<close>

definition qualifiedName :: "string option \<Rightarrow> string \<Rightarrow> string \<Rightarrow> string" where
  "qualifiedName q pk n = (if pk = [] \<or> q = Some pk then n else pk @ ''.'' @ n)"

fun writePiece :: "string option \<Rightarrow> piece \<Rightarrow> string" where
  "writePiece q (Text s) = s"
| "writePiece q (TypeName pk n) = qualifiedName q pk n"

fun TypeString :: "string option \<Rightarrow> gotype \<Rightarrow> string" where
  "TypeString q (Named pk n) = qualifiedName q pk n"
| "TypeString q (Struct s) = concat (map (writePiece q) s)"
| "TypeString q (Pointer e) = ''*'' @ TypeString q e"
| "TypeString q (Slice e) = ''[]'' @ TypeString q e"
| "TypeString q (Map k v) = ''map['' @ TypeString q k @ '']'' @ TypeString q v"
| "TypeString q (Basic n) = n"
| "TypeString q (Interface s) = concat (map (writePiece q) s)"
| "TypeString q (Other s) = concat (map (writePiece q) s)"

text \<open>The functions of package \<^verbatim>\<open>strings\<close> that the processor calls. \<open>LastIndexByte\<close> returns
  \<open>None\<close> for Go's \<open>-1\<close>.\<close>

definition TrimLeft :: "string \<Rightarrow> string \<Rightarrow> string" where
  "TrimLeft s cutset = dropWhile (\<lambda>c. c \<in> set cutset) s"

definition HasPrefix :: "string \<Rightarrow> string \<Rightarrow> bool" where
  "HasPrefix s pre = (take (length pre) s = pre)"

definition LastIndexByte :: "string \<Rightarrow> char \<Rightarrow> nat option" where
  "LastIndexByte s c =
     (if c \<in> set s then Some (length s - Suc (length (takeWhile (\<lambda>x. x \<noteq> c) (rev s)))) else None)"

definition mkType :: "env \<Rightarrow> string \<Rightarrow> gotype \<Rightarrow> Type" where
  "mkType env pkg t =
     (let relative = TypeString (Some pkg) t;
          name = TrimLeft relative ''*[]'';
          typeDef = \<lparr> ID = TypeString None t, Name = name, Package = pkg, Doc = [],
                      GVK = None, Kind = zeroKind env, Imported = False,
                      UnderlyingType = None, KeyType = None, ValueType = None,
                      Fields = [], References = [] \<rparr>;
          structType = HasPrefix name ''struct''
      in case LastIndexByte name (CHR ''.'') of
           Some dotPos \<Rightarrow>
             if \<not> structType
             then typeDef\<lparr> Name := drop (dotPos + 1) name, Package := take dotPos name, Imported := True \<rparr>
             else typeDef
         | None \<Rightarrow> typeDef)"

section \<open>The store\<close>

text \<open>
  \<open>alloc\<close> is \<^verbatim>\<open>&types.Type{...}\<close>: the new node gets the next address. \<open>upd a f\<close> assigns
  through the pointer \<open>a\<close>. \<open>store\<close> is line 362, \<^verbatim>\<open>p.types[types.Key(typeDef)] = typeDef\<close>.
\<close>

definition alloc :: "Type \<Rightarrow> processor \<Rightarrow> processor" where
  "alloc n p = p\<lparr> heap := heap p @ [n] \<rparr>"

definition upd :: "addr \<Rightarrow> (Type \<Rightarrow> Type) \<Rightarrow> processor \<Rightarrow> processor" where
  "upd a f p = p\<lparr> heap := (heap p)[a := f (heap p ! a)] \<rparr>"

section \<open>The reverse index\<close>

text \<open>\<^verbatim>\<open>p.references[key][parentKey] = struct{}{}\<close>, creating the inner set when it is missing.\<close>

fun refs_add :: "string \<Rightarrow> string \<Rightarrow> (string \<times> string list) list \<Rightarrow> (string \<times> string list) list" where
  "refs_add k v [] = [(k, [v])]"
| "refs_add k v ((k', vs) # r) =
     (if k = k' then (k', if v \<in> set vs then vs else vs @ [v]) # r
      else (k', vs) # refs_add k v r)"

definition record_ref :: "addr \<Rightarrow> addr \<Rightarrow> processor \<Rightarrow> processor" where
  "record_ref parent child p =
     p\<lparr> references := refs_add (Key (heap p ! child)) (Key (heap p ! parent)) (references p) \<rparr>"

text \<open>
  \<^verbatim>\<open>addReference\<close> (lines 452--470). It follows pointers through the store for as long as it
  meets slices, pointers and maps; \<open>None\<close> is the recursion that does not return.
\<close>

partial_function (option) addReference :: "addr \<Rightarrow> addr option \<Rightarrow> processor \<Rightarrow> processor option" where
  "addReference parent child p =
     (case child of
        None \<Rightarrow> Some p
      | Some c \<Rightarrow>
         (case Kind (heap p ! c) of
            SliceKind \<Rightarrow> addReference parent (UnderlyingType (heap p ! c)) p
          | PointerKind \<Rightarrow> addReference parent (UnderlyingType (heap p ! c)) p
          | MapKind \<Rightarrow>
              Option.bind (addReference parent (KeyType (heap p ! c)) p)
                (\<lambda>p1. addReference parent (ValueType (heap p1 ! c)) p1)
          | AliasKind \<Rightarrow> Some (record_ref parent c p)
          | StructKind \<Rightarrow> Some (record_ref parent c p)
          | _ \<Rightarrow> Some p))"

declare addReference.simps [code]

section \<open>The resolver\<close>

definition TrimSuffix :: "string \<Rightarrow> string \<Rightarrow> string" where
  "TrimSuffix s suf =
     (if length suf \<le> length s \<and> drop (length s - length suf) s = suf
      then take (length s - length suf) s else s)"

text \<open>Lines 273--281: the documentation of the declared type, raw when configured.\<close>

definition attachDoc :: "env \<Rightarrow> string \<Rightarrow> Type \<Rightarrow> Type" where
  "attachDoc env pkg typeDef =
     (case LookupType env pkg (Name typeDef) of
        None \<Rightarrow> typeDef
      | Some info \<Rightarrow>
          (case InfoRawDoc info of
             Some raw \<Rightarrow>
               if useRawDocstring env then typeDef\<lparr> Doc := TrimSuffix raw [CHR 0x0A] \<rparr>
               else typeDef\<lparr> Doc := InfoDoc info \<rparr>
           | None \<Rightarrow> typeDef\<lparr> Doc := InfoDoc info \<rparr>))"

text \<open>Lines 297--306: the package in which a named type is resolved further; \<open>None\<close> when
  the import cannot be found.\<close>

definition importPkg :: "env \<Rightarrow> string \<Rightarrow> string \<Rightarrow> string option" where
  "importPkg env pkg typePkg = (if pkg \<noteq> typePkg then Imports env pkg typePkg else Some pkg)"

text \<open>
  The node that \<^verbatim>\<open>processType\<close> works on after the table lookup missed. \<^verbatim>\<open>mkType\<close> allocates
  before the lookup; the node of a lookup that hits is garbage at once, so the model
  allocates after the lookup.
\<close>

definition fresh :: "env \<Rightarrow> string \<Rightarrow> gotype \<Rightarrow> processor \<Rightarrow> processor" where
  "fresh env pkg t p = alloc (attachDoc env pkg (mkType env pkg t)) p"

definition store :: "addr \<Rightarrow> processor \<Rightarrow> processor" where
  "store a p = p\<lparr> types := (types p)(Key (heap p ! a) \<mapsto> a) \<rparr>"

text \<open>\<^verbatim>\<open>if typeDef.UnderlyingType != nil { typeDef.Package = typeDef.UnderlyingType.Package }\<close>\<close>

definition inheritPackage :: "addr \<Rightarrow> addr option \<Rightarrow> processor \<Rightarrow> processor" where
  "inheritPackage a u p =
     (case u of None \<Rightarrow> p | Some ua \<Rightarrow> upd a (\<lambda>n. n\<lparr> Package := Package (heap p ! ua) \<rparr>) p)"

text \<open>
  Lines 378--405: the name of a field after the \<^verbatim>\<open>json\<close> tag was considered
  (\<^verbatim>\<open>strings.Split(tagVal, ",")[0]\<close> is the text before the first comma), and the field built
  for a member whose type resolved to the node \<open>ta\<close>.
\<close>

definition tagName :: "FieldInfo \<Rightarrow> string" where
  "tagName f =
     (case TagJSON f of
        Some tagVal \<Rightarrow>
          (let arg0 = takeWhile (\<lambda>c. c \<noteq> CHR '','') tagVal
           in if arg0 \<noteq> [] then arg0 else FieldInfoName f)
      | None \<Rightarrow> FieldInfoName f)"

definition mkField :: "FieldInfo \<Rightarrow> addr \<Rightarrow> processor \<Rightarrow> Field" where
  "mkField f ta p =
     (let embedded = (FieldInfoName f = []);
          name = tagName f
      in \<lparr> FieldName = (if embedded \<and> name = [] then Name (heap p ! ta) else name),
           FieldDoc = FieldInfoDoc f,
           FieldType = Some ta,
           Embedded = embedded,
           Inlined = (embedded \<and> name = []) \<rparr>)"

text \<open>
  \<^verbatim>\<open>processType\<close> (lines 266--364) and the loop of \<^verbatim>\<open>processStructFields\<close> (lines 366--415),
  whose \<open>parentTypeKey\<close> is computed on entry. \<open>depth\<close> is a Go \<^verbatim>\<open>int\<close>; it stays within
  \<open>maxDepth + 1\<close> of where it started, so it is modelled as an unbounded integer. \<open>None\<close> is
  a call that does not return, which only \<open>addReference\<close> can cause.
\<close>

function processType ::
    "env \<Rightarrow> string \<Rightarrow> addr option \<Rightarrow> gotype \<Rightarrow> int \<Rightarrow> processor \<Rightarrow> (addr option \<times> processor) option"
  and processStructFields ::
    "env \<Rightarrow> addr \<Rightarrow> string \<Rightarrow> string \<Rightarrow> FieldInfo list \<Rightarrow> int \<Rightarrow> processor \<Rightarrow> processor option"
where
  "processType env pkg parentType t depth p =
     (case types p (Key (mkType env pkg t)) of
        Some processed \<Rightarrow> Some (Some processed, p)
      | None \<Rightarrow>
         (let typeDef = length (heap p);
              p0 = fresh env pkg t p
          in if depth > maxDepth env
             then Some (Some typeDef, upd typeDef (\<lambda>n. n\<lparr> Kind := UnknownKind \<rparr>) p0)
             else
              (case t of
                 Named pk n \<Rightarrow>
                   (case importPkg env pkg (Package (heap p0 ! typeDef)) of
                      None \<Rightarrow> Some (Some typeDef, p0)
                    | Some pkg' \<Rightarrow>
                       (case processType env pkg' (Some typeDef) (Underlying env pk n) (depth + 1)
                               (upd typeDef (\<lambda>n. n\<lparr> Kind := AliasKind \<rparr>) p0) of
                          None \<Rightarrow> None
                        | Some (u, p1) \<Rightarrow>
                           (case addReference typeDef u
                                   (upd typeDef (\<lambda>n. n\<lparr> UnderlyingType := u \<rparr>) p1) of
                              None \<Rightarrow> None
                            | Some p2 \<Rightarrow> Some (Some typeDef, store typeDef p2))))
               | Struct s \<Rightarrow>
                   (case parentType of
                      Some parent \<Rightarrow>
                        (let p1 = upd parent (\<lambda>n. n\<lparr> Kind := StructKind \<rparr>) p0
                         in case LookupType env pkg (Name (heap p1 ! parent)) of
                              Some info \<Rightarrow>
                                (case processStructFields env parent pkg (Key (heap p1 ! parent))
                                        (InfoFields info) depth p1 of
                                   None \<Rightarrow> None
                                 | Some p2 \<Rightarrow> Some (None, p2))
                            | None \<Rightarrow> Some (None, p1))
                    | None \<Rightarrow>
                        Some (Some typeDef,
                          store typeDef
                            (upd typeDef
                               (\<lambda>n. n\<lparr> Name := [], Package := [], Kind := UnsupportedKind \<rparr>) p0)))
               | Pointer elem \<Rightarrow>
                   (case processType env pkg (Some typeDef) elem (depth + 1)
                           (upd typeDef (\<lambda>n. n\<lparr> Kind := PointerKind \<rparr>) p0) of
                      None \<Rightarrow> None
                    | Some (u, p1) \<Rightarrow>
                        Some (Some typeDef,
                          store typeDef
                            (inheritPackage typeDef u
                               (upd typeDef (\<lambda>n. n\<lparr> UnderlyingType := u \<rparr>) p1))))
               | Slice elem \<Rightarrow>
                   (case processType env pkg (Some typeDef) elem (depth + 1)
                           (upd typeDef (\<lambda>n. n\<lparr> Kind := SliceKind \<rparr>) p0) of
                      None \<Rightarrow> None
                    | Some (u, p1) \<Rightarrow>
                        Some (Some typeDef,
                          store typeDef
                            (inheritPackage typeDef u
                               (upd typeDef (\<lambda>n. n\<lparr> UnderlyingType := u \<rparr>) p1))))
               | Map key elem \<Rightarrow>
                   (case processType env pkg (Some typeDef) key (depth + 1)
                           (upd typeDef (\<lambda>n. n\<lparr> Kind := MapKind \<rparr>) p0) of
                      None \<Rightarrow> None
                    | Some (k, p1) \<Rightarrow>
                       (case processType env pkg (Some typeDef) elem (depth + 1)
                               (upd typeDef (\<lambda>n. n\<lparr> KeyType := k \<rparr>) p1) of
                          None \<Rightarrow> None
                        | Some (v, p2) \<Rightarrow>
                            Some (Some typeDef,
                              store typeDef
                                (inheritPackage typeDef v
                                   (upd typeDef (\<lambda>n. n\<lparr> ValueType := v \<rparr>) p2)))))
               | Basic b \<Rightarrow>
                   Some (Some typeDef,
                     store typeDef
                       (upd typeDef (\<lambda>n. n\<lparr> Kind := BasicKind, Package := [] \<rparr>) p0))
               | Interface i \<Rightarrow>
                   Some (Some typeDef,
                     store typeDef (upd typeDef (\<lambda>n. n\<lparr> Kind := InterfaceKind \<rparr>) p0))
               | Other x \<Rightarrow>
                   Some (Some typeDef,
                     store typeDef (upd typeDef (\<lambda>n. n\<lparr> Kind := UnsupportedKind \<rparr>) p0)))))"
| "processStructFields env parent pkg parentTypeKey [] depth p = Some p"
| "processStructFields env parent pkg parentTypeKey (f # fs) depth p =
     (case FieldInfoType f of
        None \<Rightarrow> processStructFields env parent pkg parentTypeKey fs depth p
      | Some t \<Rightarrow>
         (case processType env pkg None t depth p of
            None \<Rightarrow> None
          | Some (None, p1) \<Rightarrow> processStructFields env parent pkg parentTypeKey fs depth p1
          | Some (Some ta, p1) \<Rightarrow>
             (let p2 = upd ta (\<lambda>n. n\<lparr> Imported := False \<rparr>) p1;
                  fieldDef = mkField f ta p2
              in if shouldIgnoreField env parentTypeKey (FieldName fieldDef)
                 then processStructFields env parent pkg parentTypeKey fs depth p2
                 else
                  (case addReference parent (Some ta)
                          (upd parent (\<lambda>n. n\<lparr> Fields := Fields n @ [fieldDef] \<rparr>) p2) of
                     None \<Rightarrow> None
                   | Some p3 \<Rightarrow> processStructFields env parent pkg parentTypeKey fs depth p3))))"
  by pat_completeness auto
termination
  by (relation "measures
        [\<lambda>x. case x of Inl (env, pkg, parentType, t, depth, p) \<Rightarrow> nat (maxDepth env + 1 - depth)
                     | Inr (env, parent, pkg, k, fs, depth, p) \<Rightarrow> nat (maxDepth env + 1 - depth),
         \<lambda>x. case x of Inl (env, pkg, parentType, t, depth, p) \<Rightarrow> (if parentType = None then 0 else 2)
                     | Inr (env, parent, pkg, k, fs, depth, p) \<Rightarrow> 1,
         \<lambda>x. case x of Inl (env, pkg, parentType, t, depth, p) \<Rightarrow> 0
                     | Inr (env, parent, pkg, k, fs, depth, p) \<Rightarrow> length fs]")
     auto

declare processType.simps [simp del]

declare processStructFields.simps [simp del]


section \<open>Scanning packages and assembling the output\<close>

text \<open>
  A nil pointer dereference, the error \<^verbatim>\<open>type not loaded\<close> that \<^verbatim>\<open>Process\<close> returns, and the
  fatal log \<^verbatim>\<open>Type not loaded\<close> that ends the process.
\<close>

datatype error = NilPointer | TypeNotLoaded string | Fatal string

text \<open>
  A loaded package with its markers: \<open>MarkerError\<close> says that \<^verbatim>\<open>markers.PackageMarkers\<close> failed,
  \<open>PkgDoc\<close> is the result of \<^verbatim>\<open>extractPkgDocumentation\<close>, \<open>PkgTypes\<close> is what \<^verbatim>\<open>markers.EachType\<close>
  enumerates.
\<close>

record Pkg =
  PkgPath :: string
  PkgName :: string
  MarkerError :: bool
  GroupNameMarker :: "string option"
  VersionNameMarker :: "string option"
  PkgDoc :: string
  PkgTypes :: "TypeInfo list"

record GroupVersionDetails =
  DetailsGroup :: string
  DetailsVersion :: string
  DetailsDoc :: string
  DetailsKinds :: "string list"
  DetailsTypes :: "(string \<times> addr) list"

definition newProcessor :: processor where
  "newProcessor = \<lparr> heap = [], types = Map.empty, references = [], groupVersions = [] \<rparr>"

fun assign :: "'k \<Rightarrow> 'v \<Rightarrow> ('k \<times> 'v) list \<Rightarrow> ('k \<times> 'v) list" where
  "assign k v [] = [(k, v)]"
| "assign k v ((k', v') # r) = (if k = k' then (k, v) # r else (k', v') # assign k v r)"

definition GroupVersionString :: "string \<times> string \<Rightarrow> string" where
  "GroupVersionString gv = (if fst gv \<noteq> [] then fst gv @ ''/'' @ snd gv else snd gv)"

definition extractGroupVersionIfExists :: "Pkg \<Rightarrow> groupVersionInfo option" where
  "extractGroupVersionIfExists pkg =
     (if MarkerError pkg then None
      else case GroupNameMarker pkg of
             None \<Rightarrow> None
           | Some groupName \<Rightarrow>
               Some \<lparr> Group = groupName,
                      Version = (case VersionNameMarker pkg of Some v \<Rightarrow> v | None \<Rightarrow> PkgName pkg),
                      doc = PkgDoc pkg, kinds = [], gvtypes = [] \<rparr>)"

definition gvUpdate :: "string \<times> string \<Rightarrow> (groupVersionInfo \<Rightarrow> groupVersionInfo) \<Rightarrow> processor \<Rightarrow> processor" where
  "gvUpdate gv f p =
     p\<lparr> groupVersions := map (\<lambda>(k, i). if k = gv then (k, f i) else (k, i)) (groupVersions p) \<rparr>"

text \<open>
  The callback of \<^verbatim>\<open>markers.EachType\<close> (lines 177--211), first its lines 189--193. \<open>gv\<close> is
  the key of \<^verbatim>\<open>gvInfo\<close> in \<^verbatim>\<open>p.groupVersions\<close>. A nil \<open>InfoType\<close> reaches \<^verbatim>\<open>mkType\<close>, which
  panics; a nil \<open>typeDef\<close> at line 208 panics too.
\<close>

definition loadType :: "env \<Rightarrow> string \<Rightarrow> TypeInfo \<Rightarrow> processor \<Rightarrow> (error + addr option \<times> processor) option" where
  "loadType env pkg info p =
     (case types p (pkg @ ''.'' @ InfoName info) of
        Some typeDef \<Rightarrow> Some (Inr (Some typeDef, p))
      | None \<Rightarrow>
         (case InfoType info of
            None \<Rightarrow> Some (Inl NilPointer)
          | Some t \<Rightarrow>
             (case processType env pkg None t 0 p of
                None \<Rightarrow> None
              | Some r \<Rightarrow> Some (Inr r))))"

definition eachType :: "env \<Rightarrow> string \<Rightarrow> string \<times> string \<Rightarrow> TypeInfo \<Rightarrow> processor \<Rightarrow> (error + processor) option" where
  "eachType env pkg gv info p =
     (if shouldIgnoreType env (pkg @ ''.'' @ InfoName info) then Some (Inr p)
      else if \<not> InfoExported info then Some (Inr p)
      else
       (case loadType env pkg info p of
          None \<Rightarrow> None
        | Some (Inl e) \<Rightarrow> Some (Inl e)
        | Some (Inr (typeDef, p1)) \<Rightarrow>
           (let p2 = (case typeDef of
                        Some a \<Rightarrow>
                          if Kind (heap p1 ! a) \<noteq> BasicKind
                          then gvUpdate gv (\<lambda>i. i\<lparr> gvtypes := assign (InfoName info) a (gvtypes i) \<rparr>) p1
                          else p1
                      | None \<Rightarrow> p1)
            in if InfoRoot info
               then (case typeDef of
                       None \<Rightarrow> Some (Inl NilPointer)
                     | Some a \<Rightarrow>
                         Some (Inr
                           (upd a (\<lambda>n. n\<lparr> GVK := Some (fst gv, snd gv, InfoName info) \<rparr>)
                              (gvUpdate gv (\<lambda>i. i\<lparr> kinds := List.insert (InfoName info) (kinds i) \<rparr>) p2))))
               else Some (Inr p2))))"

fun eachTypes :: "env \<Rightarrow> string \<Rightarrow> string \<times> string \<Rightarrow> TypeInfo list \<Rightarrow> processor \<Rightarrow> (error + processor) option" where
  "eachTypes env pkg gv [] p = Some (Inr p)"
| "eachTypes env pkg gv (info # infos) p =
     (case eachType env pkg gv info p of
        None \<Rightarrow> None
      | Some (Inl e) \<Rightarrow> Some (Inl e)
      | Some (Inr p1) \<Rightarrow> eachTypes env pkg gv infos p1)"

fun findAPITypes :: "env \<Rightarrow> Pkg list \<Rightarrow> processor \<Rightarrow> (error + processor) option" where
  "findAPITypes env [] p = Some (Inr p)"
| "findAPITypes env (pkg # pkgs) p =
     (case extractGroupVersionIfExists pkg of
        None \<Rightarrow> findAPITypes env pkgs p
      | Some gvInfo \<Rightarrow>
          if shouldIgnoreGroupVersion env (GroupVersionString (Group gvInfo, Version gvInfo))
          then findAPITypes env pkgs p
          else
           (let gv = (Group gvInfo, Version gvInfo);
                p1 = (case map_of (groupVersions p) gv of
                        Some existing \<Rightarrow> p
                      | None \<Rightarrow> p\<lparr> groupVersions := groupVersions p @ [(gv, gvInfo)] \<rparr>)
            in case eachTypes env (PkgPath pkg) gv (PkgTypes pkg) p1 of
                 None \<Rightarrow> None
               | Some (Inl e) \<Rightarrow> Some (Inl e)
               | Some (Inr p2) \<Rightarrow> findAPITypes env pkgs p2))"

text \<open>Lines 441--450.\<close>

definition propagateReference :: "addr \<Rightarrow> addr \<Rightarrow> processor \<Rightarrow> processor" where
  "propagateReference originalType additionalType p =
     (let originalTypeKey = Key (heap p ! originalType);
          additionalTypeKey = Key (heap p ! additionalType)
      in p\<lparr> references :=
             map (\<lambda>(child, parentRefs).
                    if originalTypeKey \<in> set parentRefs \<and> additionalTypeKey \<notin> set parentRefs
                    then (child, parentRefs @ [additionalTypeKey])
                    else (child, parentRefs))
                 (references p) \<rparr>)"

text \<open>Lines 66--78 of \<^verbatim>\<open>Process\<close>: the reverse index becomes the \<open>References\<close> of the nodes.\<close>

fun appendReferences :: "addr \<Rightarrow> string list \<Rightarrow> processor \<Rightarrow> processor" where
  "appendReferences typeDef [] p = p"
| "appendReferences typeDef (ref # refs) p =
     appendReferences typeDef refs
       (case types p ref of
          Some rd \<Rightarrow> upd typeDef (\<lambda>n. n\<lparr> References := References n @ [rd] \<rparr>) p
        | None \<Rightarrow> p)"

fun collectReferences :: "(string \<times> string list) list \<Rightarrow> processor \<Rightarrow> error + processor" where
  "collectReferences [] p = Inr p"
| "collectReferences ((typeName, refs) # rest) p =
     (case types p typeName of
        None \<Rightarrow> Inl (TypeNotLoaded typeName)
      | Some typeDef \<Rightarrow> collectReferences rest (appendReferences typeDef refs p))"

text \<open>Lines 80--104: the types of one group and the array of all groups.\<close>

fun detailsTypes :: "env \<Rightarrow> processor \<Rightarrow> (string \<times> addr) list \<Rightarrow> (string \<times> addr) list \<Rightarrow> error + (string \<times> addr) list" where
  "detailsTypes env p [] acc = Inr acc"
| "detailsTypes env p ((name, t) # rest) acc =
     (let key = Key (heap p ! t)
      in if shouldIgnoreType env key then detailsTypes env p rest acc
         else (case types p key of
                 Some typeDef \<Rightarrow> detailsTypes env p rest (assign name typeDef acc)
               | None \<Rightarrow> Inl (Fatal key)))"

fun buildDetails :: "env \<Rightarrow> processor \<Rightarrow> ((string \<times> string) \<times> groupVersionInfo) list \<Rightarrow> error + GroupVersionDetails list" where
  "buildDetails env p [] = Inr []"
| "buildDetails env p ((gv, gvi) # rest) =
     (case detailsTypes env p (gvtypes gvi) [] of
        Inl e \<Rightarrow> Inl e
      | Inr ts \<Rightarrow>
         (case buildDetails env p rest of
            Inl e \<Rightarrow> Inl e
          | Inr ds \<Rightarrow>
              Inr (\<lparr> DetailsGroup = Group gvi, DetailsVersion = Version gvi, DetailsDoc = doc gvi,
                      DetailsKinds = kinds gvi, DetailsTypes = ts \<rparr> # ds)))"

text \<open>Lines 106--117: Go compares strings bytewise; \<^verbatim>\<open>sort.SliceStable\<close> is a stable
  insertion sort here.\<close>

fun stringLess :: "string \<Rightarrow> string \<Rightarrow> bool" where
  "stringLess [] [] = False"
| "stringLess [] (y # ys) = True"
| "stringLess (x # xs) [] = False"
| "stringLess (x # xs) (y # ys) =
     ((of_char x :: nat) < of_char y \<or> (x = y \<and> stringLess xs ys))"

definition detailsLess :: "GroupVersionDetails \<Rightarrow> GroupVersionDetails \<Rightarrow> bool" where
  "detailsLess a b =
     (if stringLess (DetailsGroup a) (DetailsGroup b) then True
      else if DetailsGroup a = DetailsGroup b then stringLess (DetailsVersion a) (DetailsVersion b)
      else False)"

fun insertStable :: "GroupVersionDetails \<Rightarrow> GroupVersionDetails list \<Rightarrow> GroupVersionDetails list" where
  "insertStable d [] = [d]"
| "insertStable d (e # es) = (if detailsLess d e then d # e # es else e # insertStable d es)"

definition SliceStable :: "GroupVersionDetails list \<Rightarrow> GroupVersionDetails list" where
  "SliceStable ds = foldr insertStable ds []"

text \<open>
  \<^verbatim>\<open>Process\<close>, from the compiled configuration on. \<^verbatim>\<open>p.types.InlineTypes(p.propagateReference)\<close>
  is not among the sources: it is the parameter \<open>InlineTypes\<close>. The result is the sorted array
  and the store its pointers refer to.
\<close>

definition Process ::
    "env \<Rightarrow> (processor \<Rightarrow> processor) \<Rightarrow> Pkg list \<Rightarrow> (error + GroupVersionDetails list \<times> Type list) option" where
  "Process env InlineTypes pkgs =
     (case findAPITypes env pkgs newProcessor of
        None \<Rightarrow> None
      | Some (Inl e) \<Rightarrow> Some (Inl e)
      | Some (Inr p) \<Rightarrow>
         (let p1 = InlineTypes p
          in case collectReferences (references p1) p1 of
               Inl e \<Rightarrow> Some (Inl e)
             | Inr p2 \<Rightarrow>
                (case buildDetails env p2 (groupVersions p2) of
                   Inl e \<Rightarrow> Some (Inl e)
                 | Inr gvDetails \<Rightarrow> Some (Inr (SliceStable gvDetails, heap p2)))))"


section \<open>Relations between states\<close>

text \<open>The set of parents recorded for a child key in the reverse index.\<close>

definition refsOf :: "(string \<times> string list) list \<Rightarrow> string \<Rightarrow> string set" where
  "refsOf refs k = (case map_of refs k of Some vs \<Rightarrow> set vs | None \<Rightarrow> {})"

text \<open>
  What a resolution may do to a node that existed before it started: nothing but clearing
  \<open>Imported\<close>, and, when the node is the parent the resolution was given (\<open>promoted\<close>), turning
  its kind into \<open>Struct\<close> and appending fields.
\<close>

definition sameNode :: "bool \<Rightarrow> Type \<Rightarrow> Type \<Rightarrow> bool" where
  "sameNode promoted n n' \<longleftrightarrow>
     ID n' = ID n \<and> Name n' = Name n \<and> Package n' = Package n \<and> Doc n' = Doc n \<and>
     GVK n' = GVK n \<and> UnderlyingType n' = UnderlyingType n \<and> KeyType n' = KeyType n \<and>
     ValueType n' = ValueType n \<and> References n' = References n \<and>
     (Imported n' \<longrightarrow> Imported n) \<and>
     (if promoted then (Kind n' = Kind n \<or> Kind n' = StructKind) \<and> prefix (Fields n) (Fields n')
      else Kind n' = Kind n \<and> Fields n' = Fields n)"

text \<open>
  \<open>frame parent p p'\<close>: the store has only grown, no entry of the canonical table was removed
  or overwritten, the reverse index has only grown, and the nodes of \<open>p\<close> are the same nodes
  in \<open>p'\<close>.
\<close>

definition frame :: "addr option \<Rightarrow> processor \<Rightarrow> processor \<Rightarrow> bool" where
  "frame parent p p' \<longleftrightarrow>
     length (heap p) \<le> length (heap p') \<and>
     (\<forall>k a. types p k = Some a \<longrightarrow> types p' k = Some a) \<and>
     (\<forall>k. refsOf (references p) k \<subseteq> refsOf (references p') k) \<and>
     groupVersions p' = groupVersions p \<and>
     (\<forall>x < length (heap p). sameNode (parent = Some x) (heap p ! x) (heap p' ! x))"

text \<open>
  The pointers of a node, and those that \<open>addReference\<close> follows from it. \<open>unwraps h n c\<close>: the
  recursion of \<open>addReference\<close> on \<open>c\<close> in the store \<open>h\<close> ends within \<open>n\<close> nested calls.
\<close>

definition linksOf :: "Type \<Rightarrow> addr option list" where
  "linksOf n = [UnderlyingType n, KeyType n, ValueType n]"

definition unwrapLinks :: "Type \<Rightarrow> addr option list" where
  "unwrapLinks n =
     (case Kind n of
        SliceKind \<Rightarrow> [UnderlyingType n]
      | PointerKind \<Rightarrow> [UnderlyingType n]
      | MapKind \<Rightarrow> [KeyType n, ValueType n]
      | _ \<Rightarrow> [])"

fun unwraps :: "Type list \<Rightarrow> nat \<Rightarrow> addr option \<Rightarrow> bool" where
  "unwraps h n None = True"
| "unwraps h 0 (Some c) = False"
| "unwraps h (Suc n) (Some c) = (\<forall>l \<in> set (unwrapLinks (h ! c)). unwraps h n l)"

text \<open>
  The states a run passes through: every pointer in the table and in a node is an address of
  the store, and unwrapping ends from every node. The empty processor is such a state, and
  every operation of the resolver keeps the property.
\<close>

definition wellFormed :: "processor \<Rightarrow> bool" where
  "wellFormed p \<longleftrightarrow>
     (\<forall>k a. types p k = Some a \<longrightarrow> a < length (heap p)) \<and>
     (\<forall>x < length (heap p). \<forall>y. Some y \<in> set (linksOf (heap p ! x)) \<longrightarrow> y < length (heap p)) \<and>
     (\<forall>x < length (heap p). \<exists>n. unwraps (heap p) n (Some x))"

text \<open>
  A node that nothing points at yet: the node a resolution is still working on. \<open>keeps\<close> and
  \<open>resolved\<close> say that a nested resolution leaves such nodes alone and never returns one.
\<close>

definition unlinked :: "processor \<Rightarrow> addr \<Rightarrow> bool" where
  "unlinked p a \<longleftrightarrow>
     (\<forall>k. types p k \<noteq> Some a) \<and>
     (\<forall>x < length (heap p). Some a \<notin> set (linksOf (heap p ! x)))"

definition keeps :: "processor \<Rightarrow> processor \<Rightarrow> bool" where
  "keeps p p' \<longleftrightarrow>
     length (heap p) \<le> length (heap p') \<and>
     (\<forall>x < length (heap p). unlinked p x \<longrightarrow> unlinked p' x)"

definition resolved :: "processor \<Rightarrow> addr option \<Rightarrow> processor \<Rightarrow> bool" where
  "resolved p r p' \<longleftrightarrow>
     wellFormed p' \<and> keeps p p' \<and>
     (\<forall>a. r = Some a \<longrightarrow> a < length (heap p') \<and> (a < length (heap p) \<longrightarrow> \<not> unlinked p a))"

text \<open>
  The canonical table is consistent with the store when every entry points at a node of the
  store whose identity is the key of the entry. The empty processor is such a state, and
  every operation of the resolver keeps the property.
\<close>

definition consistent :: "processor \<Rightarrow> bool" where
  "consistent p \<longleftrightarrow> (\<forall>k a. types p k = Some a \<longrightarrow> a < length (heap p) \<and> ID (heap p ! a) = k)"

text \<open>
  \<open>unwrapsTo h child b\<close>: the recursion of \<^verbatim>\<open>addReference\<close> on \<open>child\<close> in the store \<open>h\<close> reaches the
  node \<open>b\<close> of kind \<open>Alias\<close> or \<open>Struct\<close>, through the elements of slices and pointers and the
  keys and values of maps: the nodes under whose identity it records the parent.
\<close>

inductive unwrapsTo :: "Type list \<Rightarrow> addr option \<Rightarrow> addr \<Rightarrow> bool" for h where
  target: "Kind (h ! c) = AliasKind \<or> Kind (h ! c) = StructKind \<Longrightarrow> unwrapsTo h (Some c) c"
| element: "Kind (h ! c) = SliceKind \<or> Kind (h ! c) = PointerKind \<Longrightarrow>
     unwrapsTo h (UnderlyingType (h ! c)) b \<Longrightarrow> unwrapsTo h (Some c) b"
| mapKey: "Kind (h ! c) = MapKind \<Longrightarrow> unwrapsTo h (KeyType (h ! c)) b \<Longrightarrow> unwrapsTo h (Some c) b"
| mapValue: "Kind (h ! c) = MapKind \<Longrightarrow> unwrapsTo h (ValueType (h ! c)) b \<Longrightarrow> unwrapsTo h (Some c) b"

code_pred unwrapsTo .

text \<open>
  What the loop of \<^verbatim>\<open>processStructFields\<close> has done with a member \<open>m\<close>, read in the state \<open>p\<close> in
  which the loop, or a later resolution, ended. A member is \<open>retained\<close> as the field \<open>fd\<close> when
  its name is not excluded, the node \<open>ta\<close> of its type has the identity of the member's
  descriptor and is marked as not imported, \<open>fd\<close> is the field built from the member and that
  node, and the parent is recorded under the identity of every node that \<open>ta\<close> unwraps to. A
  member is \<open>dropped\<close> when it has no type, or when the name of the field built for it is
  excluded. \<open>somes\<close> keeps the fields of the members that have one.
\<close>

fun somes :: "'a option list \<Rightarrow> 'a list" where
  "somes [] = []"
| "somes (None # xs) = somes xs"
| "somes (Some x # xs) = x # somes xs"

definition retained :: "env \<Rightarrow> string \<Rightarrow> addr \<Rightarrow> processor \<Rightarrow> FieldInfo \<Rightarrow> Field \<Rightarrow> bool" where
  "retained env key parent p m fd \<longleftrightarrow>
     \<not> shouldIgnoreField env key (FieldName fd) \<and>
     (\<exists>t ta. FieldInfoType m = Some t \<and> ta < length (heap p) \<and>
        ID (heap p ! ta) = TypeString None t \<and> fd = mkField m ta p \<and>
        \<not> Imported (heap p ! ta) \<and>
        (\<forall>b. unwrapsTo (heap p) (Some ta) b \<longrightarrow>
           Key (heap p ! parent) \<in> refsOf (references p) (Key (heap p ! b))))"

definition dropped :: "env \<Rightarrow> string \<Rightarrow> processor \<Rightarrow> FieldInfo \<Rightarrow> bool" where
  "dropped env key p m \<longleftrightarrow>
     FieldInfoType m = None \<or>
     (\<exists>t ta. FieldInfoType m = Some t \<and> ta < length (heap p) \<and>
        ID (heap p ! ta) = TypeString None t \<and> \<not> Imported (heap p ! ta) \<and>
        shouldIgnoreField env key (FieldName (mkField m ta p)))"

definition outcome ::
    "env \<Rightarrow> string \<Rightarrow> addr \<Rightarrow> processor \<Rightarrow> FieldInfo \<Rightarrow> Field option \<Rightarrow> bool" where
  "outcome env key parent p m out =
     (case out of None \<Rightarrow> dropped env key p m | Some fd \<Rightarrow> retained env key parent p m fd)"

text \<open>Resolutions issued one after the other, as the scan of the packages and the loop over
  the members of a struct issue them: each is a package, a parent, a descriptor and a depth.\<close>

fun resolveAll :: "env \<Rightarrow> (string \<times> addr option \<times> gotype \<times> int) list \<Rightarrow> processor \<Rightarrow> processor option" where
  "resolveAll env [] p = Some p"
| "resolveAll env ((pkg, parentType, t, depth) # calls) p =
     (case processType env pkg parentType t depth p of
        None \<Rightarrow> None
      | Some (r, p') \<Rightarrow> resolveAll env calls p')"

section \<open>Example packages\<close>

text \<open>
  Small packages for the concrete runs below. A package \<open>p\<close> imports \<open>q\<close>; \<open>decl\<close> gives the
  underlying type and the parser's information for the types declared, and every example
  declares only what its run reaches.
\<close>

definition fld :: "string \<Rightarrow> string option \<Rightarrow> gotype \<Rightarrow> FieldInfo" where
  "fld n tag t = \<lparr> FieldInfoName = n, FieldInfoDoc = [], TagJSON = tag, FieldInfoType = Some t \<rparr>"

definition structInfo :: "string \<Rightarrow> string \<Rightarrow> FieldInfo list \<Rightarrow> TypeInfo" where
  "structInfo pk n fs = \<lparr> InfoName = n, InfoDoc = [], InfoRawDoc = None, InfoFields = fs,
      InfoExported = True, InfoRoot = False, InfoType = Some (Named pk n) \<rparr>"

definition mkEnv ::
    "int \<Rightarrow> (string \<Rightarrow> bool) \<Rightarrow> (string \<Rightarrow> string \<Rightarrow> bool) \<Rightarrow>
     (string \<Rightarrow> string \<Rightarrow> (gotype \<times> TypeInfo) option) \<Rightarrow> env" where
  "mkEnv d ignoreType ignoreField decl =
     \<lparr> maxDepth = d, useRawDocstring = False,
       shouldIgnoreType = ignoreType, shouldIgnoreField = ignoreField,
       shouldIgnoreGroupVersion = (\<lambda>_. False),
       zeroKind = AliasKind,
       LookupType = (\<lambda>pkg n. map_option snd (decl pkg n)),
       Imports = (\<lambda>pkg path. if pkg = ''p'' \<and> path = ''q'' then Some ''q'' else None),
       Underlying = (\<lambda>pk n. case decl pk n of
                                Some (u, i) \<Rightarrow> u | None \<Rightarrow> Other [Text ''invalid type'']) \<rparr>"

text \<open>\<^verbatim>\<open>type A struct { Next *A `json:"next,omitempty"` }\<close>, with \<open>maxDepth = 2\<close>.\<close>

definition declA :: "string \<Rightarrow> string \<Rightarrow> (gotype \<times> TypeInfo) option" where
  "declA pkg n =
     (if pkg = ''p'' \<and> n = ''A''
      then Some (Struct [Text ''struct{Next *'', TypeName ''p'' ''A'', Text ''}''],
             structInfo ''p'' ''A''
               [fld ''Next'' (Some ''next,omitempty'') (Pointer (Named ''p'' ''A''))])
      else None)"

definition envA :: env where
  "envA = mkEnv 2 (\<lambda>_. False) (\<lambda>_ _. False) declA"



text \<open>\<^verbatim>\<open>type S struct { F struct{ X int } }\<close> and \<^verbatim>\<open>type T struct { X int }\<close>.\<close>

definition declST :: "string \<Rightarrow> string \<Rightarrow> (gotype \<times> TypeInfo) option" where
  "declST pkg n =
     (if pkg = ''p'' \<and> n = ''S''
      then Some (Struct [Text ''struct{F struct{X int}}''],
             structInfo ''p'' ''S'' [fld ''F'' None (Struct [Text ''struct{X int}''])])
      else if pkg = ''p'' \<and> n = ''T''
      then Some (Struct [Text ''struct{X int}''], structInfo ''p'' ''T'' [fld ''X'' None (Basic ''int'')])
      else None)"

definition envST :: env where
  "envST = mkEnv 10 (\<lambda>_. False) (\<lambda>_ _. False) declST"

text \<open>\<^verbatim>\<open>type U struct { B q.B }\<close> in \<open>p\<close> and \<^verbatim>\<open>type B struct { Y int }\<close> in \<open>q\<close>.\<close>

definition declBU :: "string \<Rightarrow> string \<Rightarrow> (gotype \<times> TypeInfo) option" where
  "declBU pkg n =
     (if pkg = ''p'' \<and> n = ''U''
      then Some (Struct [Text ''struct{B '', TypeName ''q'' ''B'', Text ''}''], structInfo ''p'' ''U'' [fld ''B'' None (Named ''q'' ''B'')])
      else if pkg = ''q'' \<and> n = ''B''
      then Some (Struct [Text ''struct{Y int}''], structInfo ''q'' ''B'' [fld ''Y'' None (Basic ''int'')])
      else None)"

definition envBU :: env where
  "envBU = mkEnv 10 (\<lambda>_. False) (\<lambda>_ _. False) declBU"

text \<open>\<^verbatim>\<open>type W struct { F V }\<close>, \<^verbatim>\<open>type V struct { G Z }\<close> and \<^verbatim>\<open>type Z struct { X string }\<close>, with
  the type \<open>p.V\<close> excluded.\<close>

definition declWVZ :: "string \<Rightarrow> string \<Rightarrow> (gotype \<times> TypeInfo) option" where
  "declWVZ pkg n =
     (if pkg = ''p'' \<and> n = ''W''
      then Some (Struct [Text ''struct{F '', TypeName ''p'' ''V'', Text ''}''], structInfo ''p'' ''W'' [fld ''F'' None (Named ''p'' ''V'')])
      else if pkg = ''p'' \<and> n = ''V''
      then Some (Struct [Text ''struct{G '', TypeName ''p'' ''Z'', Text ''}''], structInfo ''p'' ''V'' [fld ''G'' None (Named ''p'' ''Z'')])
      else if pkg = ''p'' \<and> n = ''Z''
      then Some (Struct [Text ''struct{X string}''],
             structInfo ''p'' ''Z'' [fld ''X'' None (Basic ''string'')])
      else None)"

definition envWVZ :: env where
  "envWVZ = mkEnv 10 (\<lambda>k. k = ''p.V'') (\<lambda>_ _. False) declWVZ"

definition pkgWVZ :: Pkg where
  "pkgWVZ = \<lparr> PkgPath = ''p'', PkgName = ''v1'', MarkerError = False,
      GroupNameMarker = Some ''g'', VersionNameMarker = None, PkgDoc = [],
      PkgTypes = [structInfo ''p'' ''W'' [], structInfo ''p'' ''V'' [], structInfo ''p'' ''Z'' []] \<rparr>"

text \<open>
  \<^verbatim>\<open>type E struct { q.B; Ptr *q.B `json:"ptr,omitempty"`; q.B `json:"cee"`;
  Secret int `json:"secret"`; Plain int `json:",omitempty"` }\<close> in \<open>p\<close> and \<^verbatim>\<open>type B struct {}\<close>
  in \<open>q\<close>, with the field \<open>secret\<close> of \<open>p.E\<close> excluded. (Go does not accept the same type
  embedded twice; the processor does not look at that, and the run is shorter with one type.
  The text of the struct literal is abbreviated.)
\<close>

definition declE :: "string \<Rightarrow> string \<Rightarrow> (gotype \<times> TypeInfo) option" where
  "declE pkg n =
     (if pkg = ''p'' \<and> n = ''E''
      then Some (Struct [Text ''struct{...}''],
             structInfo ''p'' ''E''
               [fld [] None (Named ''q'' ''B''),
                fld ''Ptr'' (Some ''ptr,omitempty'') (Pointer (Named ''q'' ''B'')),
                fld [] (Some ''cee'') (Named ''q'' ''B''),
                fld ''Secret'' (Some ''secret'') (Basic ''int''),
                fld ''Plain'' (Some '',omitempty'') (Basic ''int'')])
      else if pkg = ''q'' \<and> n = ''B''
      then Some (Struct [Text ''struct{}''], structInfo ''q'' ''B'' [])
      else None)"

definition envE :: env where
  "envE = mkEnv 10 (\<lambda>_. False) (\<lambda>k n. k = ''p.E'' \<and> n = ''secret'') declE"

definition membersE :: "FieldInfo list" where
  "membersE = (case LookupType envE ''p'' ''E'' of Some info \<Rightarrow> InfoFields info | None \<Rightarrow> [])"

text \<open>The state in which the resolution of \<open>p.E\<close> from the empty processor enters
  \<^verbatim>\<open>processStructFields\<close> (node 0 is \<open>p.E\<close>, node 1 the node made for its struct literal), and the
  state in which the loop over the members of \<open>p.E\<close> ends.\<close>

definition exE0 :: processor where
  "exE0 = upd 0 (\<lambda>n. n\<lparr> Kind := StructKind \<rparr>)
            (fresh envE ''p'' (Underlying envE ''p'' ''E'')
               (upd 0 (\<lambda>n. n\<lparr> Kind := AliasKind \<rparr>)
                  (fresh envE ''p'' (Named ''p'' ''E'') newProcessor)))"

definition exE :: processor where
  "exE = the (processStructFields envE 0 ''p'' ''p.E'' membersE 1 exE0)"


definition exS :: processor where
  "exS = snd (the (processType envST ''p'' None (Named ''p'' ''S'') 0 newProcessor))"


definition exB :: processor where
  "exB = snd (the (processType envBU ''p'' None (Named ''q'' ''B'') 0 newProcessor))"

definition exBU :: processor where
  "exBU = snd (the (processType envBU ''p'' None (Named ''p'' ''U'') 0 exB))"

section \<open>The resolver, case by case\<close>

lemma processType_hit:
  "types p (Key (mkType env pkg t)) = Some a \<Longrightarrow>
   processType env pkg parentType t depth p = Some (Some a, p)"
  by (subst processType.simps) simp

lemma processType_miss:
  "types p (Key (mkType env pkg t)) = None \<Longrightarrow>
   processType env pkg parentType t depth p =
     (let typeDef = length (heap p); p0 = fresh env pkg t p
      in if depth > maxDepth env
         then Some (Some typeDef, upd typeDef (\<lambda>n. n\<lparr> Kind := UnknownKind \<rparr>) p0)
         else
          (case t of
             Named pk n \<Rightarrow>
               (case importPkg env pkg (Package (heap p0 ! typeDef)) of
                  None \<Rightarrow> Some (Some typeDef, p0)
                | Some pkg' \<Rightarrow>
                   (case processType env pkg' (Some typeDef) (Underlying env pk n) (depth + 1)
                           (upd typeDef (\<lambda>n. n\<lparr> Kind := AliasKind \<rparr>) p0) of
                      None \<Rightarrow> None
                    | Some (u, p1) \<Rightarrow>
                       (case addReference typeDef u
                               (upd typeDef (\<lambda>n. n\<lparr> UnderlyingType := u \<rparr>) p1) of
                          None \<Rightarrow> None
                        | Some p2 \<Rightarrow> Some (Some typeDef, store typeDef p2))))
           | Struct s \<Rightarrow>
               (case parentType of
                  Some parent \<Rightarrow>
                    (let p1 = upd parent (\<lambda>n. n\<lparr> Kind := StructKind \<rparr>) p0
                     in case LookupType env pkg (Name (heap p1 ! parent)) of
                          Some info \<Rightarrow>
                            (case processStructFields env parent pkg (Key (heap p1 ! parent))
                                    (InfoFields info) depth p1 of
                               None \<Rightarrow> None
                             | Some p2 \<Rightarrow> Some (None, p2))
                        | None \<Rightarrow> Some (None, p1))
                | None \<Rightarrow>
                    Some (Some typeDef,
                      store typeDef
                        (upd typeDef
                           (\<lambda>n. n\<lparr> Name := [], Package := [], Kind := UnsupportedKind \<rparr>) p0)))
           | Pointer elem \<Rightarrow>
               (case processType env pkg (Some typeDef) elem (depth + 1)
                       (upd typeDef (\<lambda>n. n\<lparr> Kind := PointerKind \<rparr>) p0) of
                  None \<Rightarrow> None
                | Some (u, p1) \<Rightarrow>
                    Some (Some typeDef,
                      store typeDef
                        (inheritPackage typeDef u
                           (upd typeDef (\<lambda>n. n\<lparr> UnderlyingType := u \<rparr>) p1))))
           | Slice elem \<Rightarrow>
               (case processType env pkg (Some typeDef) elem (depth + 1)
                       (upd typeDef (\<lambda>n. n\<lparr> Kind := SliceKind \<rparr>) p0) of
                  None \<Rightarrow> None
                | Some (u, p1) \<Rightarrow>
                    Some (Some typeDef,
                      store typeDef
                        (inheritPackage typeDef u
                           (upd typeDef (\<lambda>n. n\<lparr> UnderlyingType := u \<rparr>) p1))))
           | Map key elem \<Rightarrow>
               (case processType env pkg (Some typeDef) key (depth + 1)
                       (upd typeDef (\<lambda>n. n\<lparr> Kind := MapKind \<rparr>) p0) of
                  None \<Rightarrow> None
                | Some (k, p1) \<Rightarrow>
                   (case processType env pkg (Some typeDef) elem (depth + 1)
                           (upd typeDef (\<lambda>n. n\<lparr> KeyType := k \<rparr>) p1) of
                      None \<Rightarrow> None
                    | Some (v, p2) \<Rightarrow>
                        Some (Some typeDef,
                          store typeDef
                            (inheritPackage typeDef v
                               (upd typeDef (\<lambda>n. n\<lparr> ValueType := v \<rparr>) p2)))))
           | Basic b \<Rightarrow>
               Some (Some typeDef,
                 store typeDef
                   (upd typeDef (\<lambda>n. n\<lparr> Kind := BasicKind, Package := [] \<rparr>) p0))
           | Interface i \<Rightarrow>
               Some (Some typeDef,
                 store typeDef (upd typeDef (\<lambda>n. n\<lparr> Kind := InterfaceKind \<rparr>) p0))
           | Other x \<Rightarrow>
               Some (Some typeDef,
                 store typeDef (upd typeDef (\<lambda>n. n\<lparr> Kind := UnsupportedKind \<rparr>) p0))))"
  by (subst processType.simps) simp

lemma processType_cases [consumes 1, case_names hit deep unimported named absorbed absorbed_noinfo anonymous pointer slice map basic interface other]:
  assumes "processType env pkg parentType t depth p = Some (r, p')"
  obtains
    (hit) a where "types p (Key (mkType env pkg t)) = Some a" "r = Some a" "p' = p"
  | (deep) "types p (Key (mkType env pkg t)) = None" "maxDepth env < depth"
      "r = Some (length (heap p))"
      "p' = upd (length (heap p)) (\<lambda>n. n\<lparr> Kind := UnknownKind \<rparr>) (fresh env pkg t p)"
  | (unimported) pk n where "types p (Key (mkType env pkg t)) = None" "\<not> maxDepth env < depth"
      "t = Named pk n"
      "importPkg env pkg (Package (heap (fresh env pkg t p) ! length (heap p))) = None"
      "r = Some (length (heap p))" "p' = fresh env pkg t p"
  | (named) pk n pkg' u p1 p2 where "types p (Key (mkType env pkg t)) = None" "\<not> maxDepth env < depth"
      "t = Named pk n"
      "importPkg env pkg (Package (heap (fresh env pkg t p) ! length (heap p))) = Some pkg'"
      "processType env pkg' (Some (length (heap p))) (Underlying env pk n) (depth + 1)
         (upd (length (heap p)) (\<lambda>n. n\<lparr> Kind := AliasKind \<rparr>) (fresh env pkg t p)) = Some (u, p1)"
      "addReference (length (heap p)) u
         (upd (length (heap p)) (\<lambda>n. n\<lparr> UnderlyingType := u \<rparr>) p1) = Some p2"
      "r = Some (length (heap p))" "p' = store (length (heap p)) p2"
  | (absorbed) s parent info where "types p (Key (mkType env pkg t)) = None" "\<not> maxDepth env < depth"
      "t = Struct s" "parentType = Some parent"
      "LookupType env pkg
         (Name (heap (upd parent (\<lambda>n. n\<lparr> Kind := StructKind \<rparr>) (fresh env pkg t p)) ! parent)) = Some info"
      "processStructFields env parent pkg
         (Key (heap (upd parent (\<lambda>n. n\<lparr> Kind := StructKind \<rparr>) (fresh env pkg t p)) ! parent))
         (InfoFields info) depth
         (upd parent (\<lambda>n. n\<lparr> Kind := StructKind \<rparr>) (fresh env pkg t p)) = Some p'"
      "r = None"
  | (absorbed_noinfo) s parent where "types p (Key (mkType env pkg t)) = None" "\<not> maxDepth env < depth"
      "t = Struct s" "parentType = Some parent"
      "LookupType env pkg
         (Name (heap (upd parent (\<lambda>n. n\<lparr> Kind := StructKind \<rparr>) (fresh env pkg t p)) ! parent)) = None"
      "r = None" "p' = upd parent (\<lambda>n. n\<lparr> Kind := StructKind \<rparr>) (fresh env pkg t p)"
  | (anonymous) s where "types p (Key (mkType env pkg t)) = None" "\<not> maxDepth env < depth"
      "t = Struct s" "parentType = None" "r = Some (length (heap p))"
      "p' = store (length (heap p))
              (upd (length (heap p)) (\<lambda>n. n\<lparr> Name := [], Package := [], Kind := UnsupportedKind \<rparr>)
                 (fresh env pkg t p))"
  | (pointer) elem u p1 where "types p (Key (mkType env pkg t)) = None" "\<not> maxDepth env < depth"
      "t = Pointer elem"
      "processType env pkg (Some (length (heap p))) elem (depth + 1)
         (upd (length (heap p)) (\<lambda>n. n\<lparr> Kind := PointerKind \<rparr>) (fresh env pkg t p)) = Some (u, p1)"
      "r = Some (length (heap p))"
      "p' = store (length (heap p)) (inheritPackage (length (heap p)) u
              (upd (length (heap p)) (\<lambda>n. n\<lparr> UnderlyingType := u \<rparr>) p1))"
  | (slice) elem u p1 where "types p (Key (mkType env pkg t)) = None" "\<not> maxDepth env < depth"
      "t = Slice elem"
      "processType env pkg (Some (length (heap p))) elem (depth + 1)
         (upd (length (heap p)) (\<lambda>n. n\<lparr> Kind := SliceKind \<rparr>) (fresh env pkg t p)) = Some (u, p1)"
      "r = Some (length (heap p))"
      "p' = store (length (heap p)) (inheritPackage (length (heap p)) u
              (upd (length (heap p)) (\<lambda>n. n\<lparr> UnderlyingType := u \<rparr>) p1))"
  | (map) key elem k p1 v p2 where "types p (Key (mkType env pkg t)) = None" "\<not> maxDepth env < depth"
      "t = Map key elem"
      "processType env pkg (Some (length (heap p))) key (depth + 1)
         (upd (length (heap p)) (\<lambda>n. n\<lparr> Kind := MapKind \<rparr>) (fresh env pkg t p)) = Some (k, p1)"
      "processType env pkg (Some (length (heap p))) elem (depth + 1)
         (upd (length (heap p)) (\<lambda>n. n\<lparr> KeyType := k \<rparr>) p1) = Some (v, p2)"
      "r = Some (length (heap p))"
      "p' = store (length (heap p)) (inheritPackage (length (heap p)) v
              (upd (length (heap p)) (\<lambda>n. n\<lparr> ValueType := v \<rparr>) p2))"
  | (basic) b where "types p (Key (mkType env pkg t)) = None" "\<not> maxDepth env < depth"
      "t = Basic b" "r = Some (length (heap p))"
      "p' = store (length (heap p))
              (upd (length (heap p)) (\<lambda>n. n\<lparr> Kind := BasicKind, Package := [] \<rparr>) (fresh env pkg t p))"
  | (interface) i where "types p (Key (mkType env pkg t)) = None" "\<not> maxDepth env < depth"
      "t = Interface i" "r = Some (length (heap p))"
      "p' = store (length (heap p))
              (upd (length (heap p)) (\<lambda>n. n\<lparr> Kind := InterfaceKind \<rparr>) (fresh env pkg t p))"
  | (other) x where "types p (Key (mkType env pkg t)) = None" "\<not> maxDepth env < depth"
      "t = Other x" "r = Some (length (heap p))"
      "p' = store (length (heap p))
              (upd (length (heap p)) (\<lambda>n. n\<lparr> Kind := UnsupportedKind \<rparr>) (fresh env pkg t p))"
proof (cases "types p (Key (mkType env pkg t))")
  case (Some a)
  from assms have "r = Some a" "p' = p" unfolding processType_hit [OF Some] by simp_all
  with Some show ?thesis by (rule hit)
next
  case None
  note eq = assms [unfolded processType_miss [OF None] Let_def]
  show ?thesis
  proof (cases "maxDepth env < depth")
    case True
    from eq True have "r = Some (length (heap p))"
      "p' = upd (length (heap p)) (\<lambda>n. n\<lparr> Kind := UnknownKind \<rparr>) (fresh env pkg t p)"
      by simp_all
    with None True show ?thesis by (rule deep)
  next
    case False
    show ?thesis
    proof (cases t)
      case (Named pk n)
      show ?thesis
      proof (cases "importPkg env pkg (Package (heap (fresh env pkg t p) ! length (heap p)))")
        case inone: None
        from eq False Named inone have "r = Some (length (heap p))" "p' = fresh env pkg t p"
          by simp_all
        with None False Named inone show ?thesis by (rule unimported)
      next
        case (Some pkg')
        from eq False Named Some obtain u p1 p2 where
          "processType env pkg' (Some (length (heap p))) (Underlying env pk n) (depth + 1)
             (upd (length (heap p)) (\<lambda>n. n\<lparr> Kind := AliasKind \<rparr>) (fresh env pkg t p)) = Some (u, p1)"
          "addReference (length (heap p)) u
             (upd (length (heap p)) (\<lambda>n. n\<lparr> UnderlyingType := u \<rparr>) p1) = Some p2"
          "r = Some (length (heap p))" "p' = store (length (heap p)) p2"
          by (auto split: option.splits)
        with None False Named Some show ?thesis by (rule named)
      qed
    next
      case (Struct s)
      show ?thesis
      proof (cases parentType)
        case pnone: None
        from eq False Struct pnone have "r = Some (length (heap p))"
          "p' = store (length (heap p))
              (upd (length (heap p)) (\<lambda>n. n\<lparr> Name := [], Package := [], Kind := UnsupportedKind \<rparr>)
                 (fresh env pkg t p))"
          by simp_all
        with None False Struct pnone show ?thesis by (rule anonymous)
      next
        case (Some parent)
        show ?thesis
        proof (cases "LookupType env pkg
           (Name (heap (upd parent (\<lambda>n. n\<lparr> Kind := StructKind \<rparr>) (fresh env pkg t p)) ! parent))")
          case lnone: None
          from eq False Struct Some lnone have "r = None"
            "p' = upd parent (\<lambda>n. n\<lparr> Kind := StructKind \<rparr>) (fresh env pkg t p)"
            by simp_all
          with None False Struct Some lnone show ?thesis by (rule absorbed_noinfo)
        next
          case info: (Some info)
          from eq False Struct Some info have
            "processStructFields env parent pkg
               (Key (heap (upd parent (\<lambda>n. n\<lparr> Kind := StructKind \<rparr>) (fresh env pkg t p)) ! parent))
               (InfoFields info) depth
               (upd parent (\<lambda>n. n\<lparr> Kind := StructKind \<rparr>) (fresh env pkg t p)) = Some p'"
            "r = None"
            by (auto split: option.splits)
          with None False Struct Some info show ?thesis by (rule absorbed)
        qed
      qed
    next
      case (Pointer elem)
      from eq False Pointer obtain u p1 where
        "processType env pkg (Some (length (heap p))) elem (depth + 1)
           (upd (length (heap p)) (\<lambda>n. n\<lparr> Kind := PointerKind \<rparr>) (fresh env pkg t p)) = Some (u, p1)"
        "r = Some (length (heap p))"
        "p' = store (length (heap p)) (inheritPackage (length (heap p)) u
              (upd (length (heap p)) (\<lambda>n. n\<lparr> UnderlyingType := u \<rparr>) p1))"
        by (auto split: option.splits)
      with None False Pointer show ?thesis by (rule pointer)
    next
      case (Slice elem)
      from eq False Slice obtain u p1 where
        "processType env pkg (Some (length (heap p))) elem (depth + 1)
           (upd (length (heap p)) (\<lambda>n. n\<lparr> Kind := SliceKind \<rparr>) (fresh env pkg t p)) = Some (u, p1)"
        "r = Some (length (heap p))"
        "p' = store (length (heap p)) (inheritPackage (length (heap p)) u
              (upd (length (heap p)) (\<lambda>n. n\<lparr> UnderlyingType := u \<rparr>) p1))"
        by (auto split: option.splits)
      with None False Slice show ?thesis by (rule slice)
    next
      case (Map key elem)
      from eq False Map obtain k p1 v p2 where
        "processType env pkg (Some (length (heap p))) key (depth + 1)
           (upd (length (heap p)) (\<lambda>n. n\<lparr> Kind := MapKind \<rparr>) (fresh env pkg t p)) = Some (k, p1)"
        "processType env pkg (Some (length (heap p))) elem (depth + 1)
           (upd (length (heap p)) (\<lambda>n. n\<lparr> KeyType := k \<rparr>) p1) = Some (v, p2)"
        "r = Some (length (heap p))"
        "p' = store (length (heap p)) (inheritPackage (length (heap p)) v
              (upd (length (heap p)) (\<lambda>n. n\<lparr> ValueType := v \<rparr>) p2))"
        by (auto split: option.splits)
      with None False Map show ?thesis by (rule map)
    next
      case (Basic b)
      from eq False Basic have "r = Some (length (heap p))"
        "p' = store (length (heap p))
              (upd (length (heap p)) (\<lambda>n. n\<lparr> Kind := BasicKind, Package := [] \<rparr>) (fresh env pkg t p))"
        by simp_all
      with None False Basic show ?thesis by (rule basic)
    next
      case (Interface i)
      from eq False Interface have "r = Some (length (heap p))"
        "p' = store (length (heap p))
              (upd (length (heap p)) (\<lambda>n. n\<lparr> Kind := InterfaceKind \<rparr>) (fresh env pkg t p))"
        by simp_all
      with None False Interface show ?thesis by (rule interface)
    next
      case (Other x)
      from eq False Other have "r = Some (length (heap p))"
        "p' = store (length (heap p))
              (upd (length (heap p)) (\<lambda>n. n\<lparr> Kind := UnsupportedKind \<rparr>) (fresh env pkg t p))"
        by simp_all
      with None False Other show ?thesis by (rule other)
    qed
  qed
qed

lemma processStructFields_Cons_cases [consumes 1, case_names untyped unresolved excluded retained]:
  assumes "processStructFields env parent pkg key (f # fs) depth p = Some p'"
  obtains
    (untyped) "FieldInfoType f = None"
      "processStructFields env parent pkg key fs depth p = Some p'"
  | (unresolved) t p1 where "FieldInfoType f = Some t"
      "processType env pkg None t depth p = Some (None, p1)"
      "processStructFields env parent pkg key fs depth p1 = Some p'"
  | (excluded) t ta p1 where "FieldInfoType f = Some t"
      "processType env pkg None t depth p = Some (Some ta, p1)"
      "shouldIgnoreField env key
         (FieldName (mkField f ta (upd ta (\<lambda>n. n\<lparr> Imported := False \<rparr>) p1)))"
      "processStructFields env parent pkg key fs depth
         (upd ta (\<lambda>n. n\<lparr> Imported := False \<rparr>) p1) = Some p'"
  | (retained) t ta p1 p3 where "FieldInfoType f = Some t"
      "processType env pkg None t depth p = Some (Some ta, p1)"
      "\<not> shouldIgnoreField env key
         (FieldName (mkField f ta (upd ta (\<lambda>n. n\<lparr> Imported := False \<rparr>) p1)))"
      "addReference parent (Some ta)
         (upd parent
            (\<lambda>n. n\<lparr> Fields := Fields n @ [mkField f ta (upd ta (\<lambda>n. n\<lparr> Imported := False \<rparr>) p1)] \<rparr>)
            (upd ta (\<lambda>n. n\<lparr> Imported := False \<rparr>) p1)) = Some p3"
      "processStructFields env parent pkg key fs depth p3 = Some p'"
proof (cases "FieldInfoType f")
  case None
  with assms have "processStructFields env parent pkg key fs depth p = Some p'"
    by (simp add: processStructFields.simps)
  with None show ?thesis by (rule untyped)
next
  case (Some t)
  note eq = assms [unfolded processStructFields.simps(2) Some option.case]
  show ?thesis
  proof (cases "processType env pkg None t depth p")
    case None
    with eq show ?thesis by simp
  next
    case res: (Some res)
    obtain r p1 where res': "processType env pkg None t depth p = Some (r, p1)"
      using res by (cases res) simp
    show ?thesis
    proof (cases r)
      case None
      with eq res' have "processStructFields env parent pkg key fs depth p1 = Some p'"
        by simp
      with Some res' None show ?thesis by (simp add: unresolved)
    next
      case ta: (Some ta)
      show ?thesis
      proof (cases "shouldIgnoreField env key
         (FieldName (mkField f ta (upd ta (\<lambda>n. n\<lparr> Imported := False \<rparr>) p1)))")
        case True
        with eq res' ta have "processStructFields env parent pkg key fs depth
           (upd ta (\<lambda>n. n\<lparr> Imported := False \<rparr>) p1) = Some p'"
          by (simp add: Let_def)
        with Some res' ta True show ?thesis by (simp add: excluded)
      next
        case False
        with eq res' ta obtain p3 where
          "addReference parent (Some ta)
             (upd parent
                (\<lambda>n. n\<lparr> Fields := Fields n @ [mkField f ta (upd ta (\<lambda>n. n\<lparr> Imported := False \<rparr>) p1)] \<rparr>)
                (upd ta (\<lambda>n. n\<lparr> Imported := False \<rparr>) p1)) = Some p3"
          "processStructFields env parent pkg key fs depth p3 = Some p'"
          by (auto simp: Let_def split: option.splits)
        with Some res' ta False show ?thesis by (simp add: retained)
      qed
    qed
  qed
qed

lemma sameNode_refl: "sameNode b n n"
  by (simp add: sameNode_def)

lemma prefix_trans': "prefix xs ys \<Longrightarrow> prefix ys zs \<Longrightarrow> prefix xs zs"
  by (auto simp: prefix_def)

lemma sameNode_trans:
  assumes "sameNode b n n'" "sameNode b' n' n''" "b' \<longrightarrow> b"
  shows "sameNode b n n''"
proof (cases b)
  case True
  show ?thesis
  proof (cases b')
    case b': True
    from assms(1,2) True b' show ?thesis
      unfolding sameNode_def by (auto dest: prefix_trans')
  next
    case b': False
    from assms(1,2) True b' show ?thesis
      unfolding sameNode_def by simp
  qed
next
  case False
  with assms(3) have "\<not> b'" by simp
  with assms(1,2) False show ?thesis unfolding sameNode_def by simp
qed

lemma frame_refl: "frame parent p p"
  by (simp add: frame_def sameNode_refl)

lemma frame_trans:
  assumes "frame parent p q" "frame parent' q r"
    and "parent' = parent \<or> parent' = None \<or> (\<exists>a. parent' = Some a \<and> length (heap p) \<le> a)"
  shows "frame parent p r"
  unfolding frame_def
proof (intro conjI allI impI)
  show "length (heap p) \<le> length (heap r)" using assms by (auto simp: frame_def)
  show "\<And>k a. types p k = Some a \<Longrightarrow> types r k = Some a" using assms by (auto simp: frame_def)
  show "\<And>k. refsOf (references p) k \<subseteq> refsOf (references r) k"
    using assms(1,2) unfolding frame_def by blast
  show "groupVersions r = groupVersions p" using assms by (auto simp: frame_def)
next
  fix x assume x: "x < length (heap p)"
  then have 1: "sameNode (parent = Some x) (heap p ! x) (heap q ! x)"
    using assms(1) by (simp add: frame_def)
  from x assms(1) have "x < length (heap q)" by (simp add: frame_def)
  then have 2: "sameNode (parent' = Some x) (heap q ! x) (heap r ! x)"
    using assms(2) by (simp add: frame_def)
  from assms(3) x have "parent' = Some x \<longrightarrow> parent = Some x" by auto
  with 1 2 show "sameNode (parent = Some x) (heap p ! x) (heap r ! x)"
    by (rule sameNode_trans)
qed

lemma frame_weaken: "frame None p q \<Longrightarrow> frame parent p q"
  unfolding frame_def sameNode_def by auto

lemma frame_alloc: "frame parent p q \<Longrightarrow> frame parent p (alloc n q)"
  unfolding frame_def alloc_def by (auto simp: nth_append)

lemma frame_upd_fresh:
  assumes "frame parent p q" "length (heap p) \<le> a"
  shows "frame parent p (upd a f q)"
proof -
  have "heap (upd a f q) ! x = heap q ! x" if "x < length (heap p)" for x
    using that assms(2) by (simp add: upd_def)
  moreover have "length (heap (upd a f q)) = length (heap q)" "types (upd a f q) = types q"
    "references (upd a f q) = references q" "groupVersions (upd a f q) = groupVersions q"
    by (simp_all add: upd_def)
  ultimately show ?thesis using assms(1) unfolding frame_def by simp
qed

lemma frame_upd_same:
  assumes "frame parent p q" "\<And>n. sameNode (parent = Some a) n (f n)"
  shows "frame parent p (upd a f q)"
  unfolding frame_def
proof (intro conjI allI impI)
  show "length (heap p) \<le> length (heap (upd a f q))" using assms(1) by (simp add: frame_def upd_def)
  show "\<And>k b. types p k = Some b \<Longrightarrow> types (upd a f q) k = Some b"
    using assms(1) by (simp add: frame_def upd_def)
  show "\<And>k. refsOf (references p) k \<subseteq> refsOf (references (upd a f q)) k"
    using assms(1) by (simp add: frame_def upd_def)
  show "groupVersions (upd a f q) = groupVersions p" using assms(1) by (simp add: frame_def upd_def)
next
  fix x assume x: "x < length (heap p)"
  with assms(1) have xq: "x < length (heap q)"
    and 1: "sameNode (parent = Some x) (heap p ! x) (heap q ! x)"
    by (auto simp: frame_def)
  show "sameNode (parent = Some x) (heap p ! x) (heap (upd a f q) ! x)"
  proof (cases "x = a")
    case True
    with xq have "heap (upd a f q) ! x = f (heap q ! x)" by (simp add: upd_def)
    with 1 assms(2) [of "heap q ! x"] True show ?thesis
      by (auto intro: sameNode_trans)
  next
    case False
    then have "heap (upd a f q) ! x = heap q ! x" by (simp add: upd_def)
    with 1 show ?thesis by simp
  qed
qed

lemma frame_store:
  assumes "frame parent p q" "types p (Key (heap q ! a)) = None"
  shows "frame parent p (store a q)"
proof -
  have "types (store a q) k = Some b" if "types p k = Some b" for k b
  proof -
    from that assms(2) have "k \<noteq> Key (heap q ! a)" by auto
    moreover from that assms(1) have "types q k = Some b" by (simp add: frame_def)
    ultimately show ?thesis by (simp add: store_def)
  qed
  moreover have "heap (store a q) = heap q" "references (store a q) = references q"
    "groupVersions (store a q) = groupVersions q"
    by (simp_all add: store_def)
  ultimately show ?thesis using assms(1) unfolding frame_def by simp
qed

lemma frame_inheritPackage:
  "frame parent p q \<Longrightarrow> length (heap p) \<le> a \<Longrightarrow> frame parent p (inheritPackage a u q)"
  by (cases u) (simp_all add: inheritPackage_def frame_upd_fresh)

lemma frame_references:
  assumes "frame parent p q" "heap q' = heap q" "types q' = types q"
    "groupVersions q' = groupVersions q"
    "\<And>k. refsOf (references q) k \<subseteq> refsOf (references q') k"
  shows "frame parent p q'"
proof -
  have "refsOf (references p) k \<subseteq> refsOf (references q') k" for k
    using assms(1) assms(5) [of k] unfolding frame_def by blast
  then show ?thesis using assms(1-4) unfolding frame_def by simp
qed

lemma map_of_refs_add:
  "map_of (refs_add k v refs) k' =
     (if k' = k
      then Some (case map_of refs k of None \<Rightarrow> [v]
                 | Some vs \<Rightarrow> if v \<in> set vs then vs else vs @ [v])
      else map_of refs k')"
proof (induction refs arbitrary: k')
  case Nil
  show ?case by simp
next
  case (Cons e refs)
  obtain k0 vs where e: "e = (k0, vs)" by (cases e)
  show ?case
  proof (cases "k = k0")
    case True
    then show ?thesis by (simp add: e)
  next
    case False
    with Cons show ?thesis by (simp add: e)
  qed
qed

lemma refsOf_refs_add:
  "refsOf (refs_add k v refs) k' = (if k' = k then insert v (refsOf refs k) else refsOf refs k')"
proof (cases "map_of refs k")
  case None
  then show ?thesis by (simp add: refsOf_def map_of_refs_add)
next
  case (Some vs)
  then show ?thesis by (cases "v \<in> set vs") (auto simp: refsOf_def map_of_refs_add)
qed

lemma addReference_effect:
  "addReference parent child p = Some p' \<Longrightarrow>
     heap p' = heap p \<and> types p' = types p \<and> groupVersions p' = groupVersions p \<and>
     (\<forall>k. refsOf (references p) k \<subseteq> refsOf (references p') k)"
proof (erule addReference.raw_induct [rotated], goal_cases)
  case (1 f parent child p p')
  show ?case
  proof (cases child)
    case None
    with 1(2) show ?thesis by simp
  next
    case (Some c)
    show ?thesis
    proof (cases "Kind (heap p ! c) = MapKind")
      case True
      with 1(2) Some obtain p1 where a: "f parent (KeyType (heap p ! c)) p = Some p1"
        and b: "f parent (ValueType (heap p1 ! c)) p1 = Some p'"
        by (auto simp: bind_eq_Some_conv)
      from 1(1) [OF a] 1(1) [OF b] show ?thesis by auto
    next
      case False
      show ?thesis
      proof (cases "Kind (heap p ! c) = SliceKind \<or> Kind (heap p ! c) = PointerKind")
        case True
        with 1(2) Some have "f parent (UnderlyingType (heap p ! c)) p = Some p'" by auto
        then show ?thesis by (rule 1(1))
      next
        case notptr: False
        show ?thesis
        proof (cases "Kind (heap p ! c) = AliasKind \<or> Kind (heap p ! c) = StructKind")
          case True
          with 1(2) Some have "p' = record_ref parent c p" by auto
          then show ?thesis by (auto simp: record_ref_def refsOf_refs_add)
        next
          case False
          with 1(2) Some notptr \<open>Kind (heap p ! c) \<noteq> MapKind\<close> have "p' = p"
            by (cases "Kind (heap p ! c)") simp_all
          then show ?thesis by simp
        qed
      qed
    qed
  qed
qed

lemma frame_addReference:
  "frame parent p q \<Longrightarrow> addReference a c q = Some q' \<Longrightarrow> frame parent p q'"
  by (drule addReference_effect) (rule frame_references, auto)

lemma ID_attachDoc [simp]: "ID (attachDoc env pkg n) = ID n"
  by (simp add: attachDoc_def split: option.splits)

lemma heap_fresh:
  "heap (fresh env pkg t p) = heap p @ [attachDoc env pkg (mkType env pkg t)]"
  by (simp add: fresh_def alloc_def)

lemma ID_fresh: "ID (heap (fresh env pkg t p) ! length (heap p)) = ID (mkType env pkg t)"
  by (simp add: heap_fresh)

lemma ID_upd: "(\<And>n. ID (f n) = ID n) \<Longrightarrow> ID (heap (upd a f q) ! x) = ID (heap q ! x)"
  by (cases "a < length (heap q)"; cases "x = a") (simp_all add: upd_def list_update_beyond)

lemma ID_inheritPackage: "ID (heap (inheritPackage a u q) ! x) = ID (heap q ! x)"
  by (cases u) (simp_all add: inheritPackage_def ID_upd)

lemma ID_frame:
  "frame parent q q' \<Longrightarrow> x < length (heap q) \<Longrightarrow> ID (heap q' ! x) = ID (heap q ! x)"
  by (simp add: frame_def sameNode_def)

lemma length_upd [simp]: "length (heap (upd a f q)) = length (heap q)"
  by (simp add: upd_def)

lemma length_fresh [simp]: "length (heap (fresh env pkg t p)) = Suc (length (heap p))"
  by (simp add: heap_fresh)

lemma frame_fresh: "frame parent p (fresh env pkg t p)"
  by (simp add: fresh_def frame_alloc frame_refl)

lemma frame_finish:
  assumes "frame parent p q" "types p (Key (mkType env pkg t)) = None"
    "ID (heap q ! length (heap p)) = ID (mkType env pkg t)"
  shows "frame parent p (store (length (heap p)) q)"
  using assms by (intro frame_store) (simp_all add: Key_def)

lemma frame_nested:
  assumes "frame (Some (length (heap p))) (upd (length (heap p)) f (fresh env pkg t p)) q"
  shows "frame parent p q"
proof -
  have "frame parent p (upd (length (heap p)) f (fresh env pkg t p))"
    by (simp add: frame_upd_fresh frame_fresh)
  then show ?thesis using assms by (rule frame_trans) simp
qed

lemma ID_nested:
  assumes "frame (Some (length (heap p))) (upd (length (heap p)) f (fresh env pkg t p)) q"
    "\<And>n. ID (f n) = ID n"
  shows "ID (heap q ! length (heap p)) = ID (mkType env pkg t)"
proof -
  have "ID (heap q ! length (heap p)) =
        ID (heap (upd (length (heap p)) f (fresh env pkg t p)) ! length (heap p))"
    using assms(1) by (rule ID_frame) simp
  also have "\<dots> = ID (mkType env pkg t)" using assms(2) by (simp add: ID_upd ID_fresh)
  finally show ?thesis .
qed

lemma processType_frame:
  "processType env pkg parentType t depth p = Some (r, p') \<Longrightarrow> frame parentType p p'"
  and processStructFields_frame:
  "processStructFields env parent pkg key fs depth p = Some p' \<Longrightarrow> frame (Some parent) p p'"
proof (induction env pkg parentType t depth p and env parent pkg key fs depth p
    arbitrary: r p' and p' rule: processType_processStructFields.induct)
  case (1 env pkg parentType t depth p)
  let ?a = "length (heap p)"
  let ?p0 = "fresh env pkg t p"
  note IH = "1.IH"
  from "1.prems" show ?case
  proof (cases rule: processType_cases)
    case (hit a)
    then show ?thesis by (simp add: frame_refl)
  next
    case deep
    then show ?thesis by (simp add: frame_upd_fresh frame_fresh)
  next
    case (unimported pk n)
    then show ?thesis by (simp add: frame_fresh)
  next
    case (named pk n pkg' u p1 p2)
    have nested: "frame (Some ?a) (upd ?a (\<lambda>n. n\<lparr> Kind := AliasKind \<rparr>) ?p0) p1"
      using IH(1) [OF named(1) refl refl named(2-5)] .
    let ?q = "upd ?a (\<lambda>n. n\<lparr> UnderlyingType := u \<rparr>) p1"
    have "frame parentType p ?q"
      using frame_nested [OF nested] by (simp add: frame_upd_fresh)
    then have f2: "frame parentType p p2" using named(6) by (rule frame_addReference)
    have "heap p2 = heap ?q" using addReference_effect [OF named(6)] by simp
    then have "ID (heap p2 ! ?a) = ID (mkType env pkg t)"
      using ID_nested [OF nested] by (simp add: ID_upd)
    with f2 named(1) show ?thesis unfolding named(8) by (intro frame_finish)
  next
    case (absorbed s parent info)
    let ?p1 = "upd parent (\<lambda>n. n\<lparr> Kind := StructKind \<rparr>) ?p0"
    have "frame parentType p ?p1"
      by (rule frame_upd_same [OF frame_fresh]) (simp add: sameNode_def absorbed(4))
    moreover have "frame parentType ?p1 p'"
      using IH(2) [OF absorbed(1) refl refl absorbed(2-4) refl absorbed(5,6)] absorbed(4) by simp
    ultimately show ?thesis by (rule frame_trans) simp
  next
    case (absorbed_noinfo s parent)
    show ?thesis unfolding absorbed_noinfo(7)
      by (rule frame_upd_same [OF frame_fresh]) (simp add: sameNode_def absorbed_noinfo(4))
  next
    case (anonymous s)
    show ?thesis unfolding anonymous(6) using anonymous(1)
      by (intro frame_finish frame_upd_fresh frame_fresh) (simp_all add: ID_upd ID_fresh)
  next
    case (pointer elem u p1)
    have nested: "frame (Some ?a) (upd ?a (\<lambda>n. n\<lparr> Kind := PointerKind \<rparr>) ?p0) p1"
      using IH(3) [OF pointer(1) refl refl pointer(2-4)] .
    show ?thesis unfolding pointer(6) using pointer(1) frame_nested [OF nested] ID_nested [OF nested]
      by (intro frame_finish frame_inheritPackage frame_upd_fresh)
         (simp_all add: ID_upd ID_inheritPackage)
  next
    case (slice elem u p1)
    have nested: "frame (Some ?a) (upd ?a (\<lambda>n. n\<lparr> Kind := SliceKind \<rparr>) ?p0) p1"
      using IH(4) [OF slice(1) refl refl slice(2-4)] .
    show ?thesis unfolding slice(6) using slice(1) frame_nested [OF nested] ID_nested [OF nested]
      by (intro frame_finish frame_inheritPackage frame_upd_fresh)
         (simp_all add: ID_upd ID_inheritPackage)
  next
    case (map key elem k p1 v p2)
    have nested: "frame (Some ?a) (upd ?a (\<lambda>n. n\<lparr> Kind := MapKind \<rparr>) ?p0) p1"
      using IH(5) [OF map(1) refl refl map(2-4)] .
    have nested2: "frame (Some ?a) (upd ?a (\<lambda>n. n\<lparr> KeyType := k \<rparr>) p1) p2"
      using IH(6) [OF map(1) refl refl map(2-4) refl map(5)] .
    have a1: "?a < length (heap p1)" using nested by (simp add: frame_def)
    have 1: "frame parentType p (upd ?a (\<lambda>n. n\<lparr> KeyType := k \<rparr>) p1)"
      using frame_nested [OF nested] by (simp add: frame_upd_fresh)
    have 2: "frame parentType p p2" using 1 nested2 by (rule frame_trans) simp
    have "ID (heap p2 ! ?a) = ID (heap (upd ?a (\<lambda>n. n\<lparr> KeyType := k \<rparr>) p1) ! ?a)"
      using nested2 a1 by (intro ID_frame) simp_all
    then have 3: "ID (heap p2 ! ?a) = ID (mkType env pkg t)"
      using ID_nested [OF nested] by (simp add: ID_upd)
    show ?thesis unfolding map(7) using map(1) 2 3
      by (intro frame_finish frame_inheritPackage frame_upd_fresh)
         (simp_all add: ID_upd ID_inheritPackage)
  next
    case (basic b)
    show ?thesis unfolding basic(5) using basic(1)
      by (intro frame_finish frame_upd_fresh frame_fresh) (simp_all add: ID_upd ID_fresh)
  next
    case (interface i)
    show ?thesis unfolding interface(5) using interface(1)
      by (intro frame_finish frame_upd_fresh frame_fresh) (simp_all add: ID_upd ID_fresh)
  next
    case (other x)
    show ?thesis unfolding other(5) using other(1)
      by (intro frame_finish frame_upd_fresh frame_fresh) (simp_all add: ID_upd ID_fresh)
  qed
next
  case (2 env parent pkg parentTypeKey depth p)
  then show ?case by (simp add: processStructFields.simps frame_refl)
next
  case (3 env parent pkg parentTypeKey f fs depth p)
  from "3.prems" show ?case
  proof (cases rule: processStructFields_Cons_cases)
    case untyped
    then show ?thesis using "3.IH"(1) by simp
  next
    case (unresolved t p1)
    have "frame (Some parent) p p1"
      using "3.IH"(2) [OF unresolved(1,2)] by (rule frame_weaken)
    moreover have "frame (Some parent) p1 p'"
      using "3.IH"(3) [OF unresolved(1,2) refl refl unresolved(3)] .
    ultimately show ?thesis by (rule frame_trans) simp
  next
    case (excluded t ta p1)
    let ?p2 = "upd ta (\<lambda>n. n\<lparr> Imported := False \<rparr>) p1"
    have "frame (Some parent) p p1"
      using "3.IH"(2) [OF excluded(1,2)] by (rule frame_weaken)
    then have "frame (Some parent) p ?p2"
      by (rule frame_upd_same) (simp add: sameNode_def)
    moreover have "frame (Some parent) ?p2 p'"
      using "3.IH"(4) [OF excluded(1,2) refl refl refl refl excluded(3,4)] .
    ultimately show ?thesis by (rule frame_trans) simp
  next
    case (retained t ta p1 p3)
    let ?p2 = "upd ta (\<lambda>n. n\<lparr> Imported := False \<rparr>) p1"
    let ?fd = "mkField f ta ?p2"
    have "frame (Some parent) p p1"
      using "3.IH"(2) [OF retained(1,2)] by (rule frame_weaken)
    then have "frame (Some parent) p ?p2"
      by (rule frame_upd_same) (simp add: sameNode_def)
    then have "frame (Some parent) p (upd parent (\<lambda>n. n\<lparr> Fields := Fields n @ [?fd] \<rparr>) ?p2)"
      by (rule frame_upd_same) (simp add: sameNode_def)
    then have "frame (Some parent) p p3" using retained(4) by (rule frame_addReference)
    moreover have "frame (Some parent) p3 p'"
      using "3.IH"(5) [OF retained(1,2) refl refl refl refl retained(3,4,5)] .
    ultimately show ?thesis by (rule frame_trans) simp
  qed
qed

lemma unwrapLinks_subset: "set (unwrapLinks n) \<subseteq> set (linksOf n)"
  by (cases "Kind n") (simp_all add: unwrapLinks_def linksOf_def)

lemma unwraps_mono: "unwraps h n c \<Longrightarrow> n \<le> m \<Longrightarrow> unwraps h m c"
proof (induction h n c arbitrary: m rule: unwraps.induct)
  case (1 h n)
  show ?case by simp
next
  case (2 h c)
  then show ?case by simp
next
  case (3 h n c)
  from "3.prems"(2) obtain m' where m: "m = Suc m'" "n \<le> m'" by (cases m) auto
  with 3 show ?case by auto
qed

lemma unwraps_max:
  assumes "\<forall>l \<in> set ls. \<exists>n. unwraps h n l"
  shows "\<exists>n. \<forall>l \<in> set ls. unwraps h n l"
  using assms
proof (induction ls)
  case Nil
  show ?case by simp
next
  case (Cons l ls)
  then obtain n1 n2 where "unwraps h n1 l" "\<forall>l \<in> set ls. unwraps h n2 l" by auto
  then have "\<forall>l' \<in> set (l # ls). unwraps h (max n1 n2) l'"
    by (auto intro: unwraps_mono)
  then show ?case ..
qed

lemma unwraps_agree:
  assumes "\<And>x. x \<in> S \<Longrightarrow> h' ! x = h ! x"
    and "\<And>x y. x \<in> S \<Longrightarrow> Some y \<in> set (linksOf (h ! x)) \<Longrightarrow> y \<in> S"
  shows "unwraps h n c \<Longrightarrow> (\<And>x. c = Some x \<Longrightarrow> x \<in> S) \<Longrightarrow> unwraps h' n c"
proof (induction n arbitrary: c)
  case 0
  then show ?case by (cases c) simp_all
next
  case (Suc n)
  show ?case
  proof (cases c)
    case None
    then show ?thesis by simp
  next
    case (Some x)
    with Suc.prems(2) have x: "x \<in> S" by simp
    have "unwraps h' n l" if l: "l \<in> set (unwrapLinks (h ! x))" for l
    proof (rule Suc.IH)
      from Suc.prems(1) Some l show "unwraps h n l" by simp
      fix y assume "l = Some y"
      with l unwrapLinks_subset have "Some y \<in> set (linksOf (h ! x))" by auto
      with x show "y \<in> S" by (rule assms(2))
    qed
    with x Some show ?thesis by (simp add: assms(1))
  qed
qed

lemma unwraps_fewer:
  assumes "\<And>x. set (unwrapLinks (h' ! x)) \<subseteq> set (unwrapLinks (h ! x))"
  shows "unwraps h n c \<Longrightarrow> unwraps h' n c"
proof (induction n arbitrary: c)
  case 0
  then show ?case by (cases c) simp_all
next
  case (Suc n)
  show ?case
  proof (cases c)
    case None
    then show ?thesis by simp
  next
    case (Some x)
    with Suc.prems have "\<forall>l \<in> set (unwrapLinks (h ! x)). unwraps h' n l"
      by (auto intro: Suc.IH)
    with assms [of x] Some show ?thesis by auto
  qed
qed

lemma linksValid_closed:
  assumes "wellFormed p"
  shows "x < length (heap p) \<Longrightarrow> Some y \<in> set (linksOf (heap p ! x)) \<Longrightarrow> y < length (heap p)"
  using assms unfolding wellFormed_def by blast

lemma addReference_total:
  "unwraps (heap p) n child \<Longrightarrow> \<exists>p'. addReference parent child p = Some p'"
proof (induction n arbitrary: child p)
  case 0
  then show ?case by (cases child) (simp_all add: addReference.simps)
next
  case (Suc n)
  show ?case
  proof (cases child)
    case None
    then show ?thesis by (simp add: addReference.simps)
  next
    case (Some c)
    show ?thesis
    proof (cases "Kind (heap p ! c) = MapKind")
      case True
      with Suc.prems Some have k: "unwraps (heap p) n (KeyType (heap p ! c))"
        and v: "unwraps (heap p) n (ValueType (heap p ! c))"
        by (simp_all add: unwrapLinks_def)
      from Suc.IH [OF k] obtain p1 where p1: "addReference parent (KeyType (heap p ! c)) p = Some p1"
        by blast
      then have "heap p1 = heap p" using addReference_effect by blast
      with v Suc.IH [of p1 "ValueType (heap p1 ! c)"]
      obtain p2 where "addReference parent (ValueType (heap p1 ! c)) p1 = Some p2" by auto
      with p1 True Some show ?thesis by (subst addReference.simps) simp
    next
      case False
      show ?thesis
      proof (cases "Kind (heap p ! c) = SliceKind \<or> Kind (heap p ! c) = PointerKind")
        case True
        with Suc.prems Some have "unwraps (heap p) n (UnderlyingType (heap p ! c))"
          by (auto simp: unwrapLinks_def)
        from Suc.IH [OF this] True Some show ?thesis
          by (subst addReference.simps) auto
      next
        case notptr: False
        with False Some show ?thesis
          by (subst addReference.simps) (cases "Kind (heap p ! c)", simp_all)
      qed
    qed
  qed
qed

lemma keeps_refl: "keeps p p"
  by (simp add: keeps_def)

lemma keeps_trans: "keeps p q \<Longrightarrow> keeps q r \<Longrightarrow> keeps p r"
  unfolding keeps_def by (meson le_trans less_le_trans)

lemma wf_types_valid: "wellFormed p \<Longrightarrow> types p k = Some a \<Longrightarrow> a < length (heap p)"
  unfolding wellFormed_def by blast

lemma wf_unwraps: "wellFormed p \<Longrightarrow> x < length (heap p) \<Longrightarrow> \<exists>n. unwraps (heap p) n (Some x)"
  unfolding wellFormed_def by blast

lemma wf_unwraps_opt:
  "wellFormed p \<Longrightarrow> (\<And>x. c = Some x \<Longrightarrow> x < length (heap p)) \<Longrightarrow> \<exists>n. unwraps (heap p) n c"
  by (cases c) (auto dest: wf_unwraps intro: exI [of _ 0])

lemma linksOf_mkType [simp]:
  "linksOf (attachDoc env pkg (mkType env pkg t)) = [None, None, None]"
  by (simp add: linksOf_def attachDoc_def mkType_def Let_def split: option.splits)

lemma heap_upd_nth:
  "heap (upd a f q) ! x = (if x = a \<and> a < length (heap q) then f (heap q ! a) else heap q ! x)"
  by (cases "a < length (heap q)") (simp_all add: upd_def list_update_beyond)

lemma types_upd [simp]: "types (upd a f q) = types q"
  by (simp add: upd_def)

lemma wf_fresh:
  assumes "wellFormed p"
  shows "wellFormed (fresh env pkg t p)"
  unfolding wellFormed_def
proof (intro conjI allI impI)
  fix k a assume "types (fresh env pkg t p) k = Some a"
  then have "types p k = Some a" by (simp add: fresh_def alloc_def)
  with assms have "a < length (heap p)" by (rule wf_types_valid)
  then show "a < length (heap (fresh env pkg t p))" by simp
next
  fix x y assume x: "x < length (heap (fresh env pkg t p))"
    and y: "Some y \<in> set (linksOf (heap (fresh env pkg t p) ! x))"
  show "y < length (heap (fresh env pkg t p))"
  proof (cases "x < length (heap p)")
    case True
    with y have "Some y \<in> set (linksOf (heap p ! x))" by (simp add: heap_fresh nth_append)
    with assms True have "y < length (heap p)" by (rule linksValid_closed)
    then show ?thesis by simp
  next
    case False
    with x have "x = length (heap p)" by simp
    with y show ?thesis by (simp add: heap_fresh)
  qed
next
  fix x assume x: "x < length (heap (fresh env pkg t p))"
  show "\<exists>n. unwraps (heap (fresh env pkg t p)) n (Some x)"
  proof (cases "x < length (heap p)")
    case True
    with assms obtain n where "unwraps (heap p) n (Some x)" by (blast dest: wf_unwraps)
    then have "unwraps (heap (fresh env pkg t p)) n (Some x)"
    proof (rule unwraps_agree [where S = "{x. x < length (heap p)}", rotated 2])
      show "\<And>z. Some x = Some z \<Longrightarrow> z \<in> {x. x < length (heap p)}" using True by simp
      show "\<And>z. z \<in> {x. x < length (heap p)} \<Longrightarrow> heap (fresh env pkg t p) ! z = heap p ! z"
        by (simp add: heap_fresh nth_append)
      show "\<And>z y. z \<in> {x. x < length (heap p)} \<Longrightarrow> Some y \<in> set (linksOf (heap p ! z)) \<Longrightarrow>
          y \<in> {x. x < length (heap p)}"
        using linksValid_closed [OF assms] by simp
    qed
    then show ?thesis ..
  next
    case False
    with x have xa: "x = length (heap p)" by simp
    have "set (unwrapLinks (heap (fresh env pkg t p) ! x)) \<subseteq> {None}"
      using unwrapLinks_subset [of "heap (fresh env pkg t p) ! x"] by (simp add: xa heap_fresh)
    then have "unwraps (heap (fresh env pkg t p)) (Suc 0) (Some x)" by auto
    then show ?thesis ..
  qed
qed

lemma unlinked_fresh_new:
  assumes "wellFormed p"
  shows "unlinked (fresh env pkg t p) (length (heap p))"
  unfolding unlinked_def
proof (intro conjI allI impI)
  fix k show "types (fresh env pkg t p) k \<noteq> Some (length (heap p))"
    using wf_types_valid [OF assms, of k "length (heap p)"] by (auto simp: fresh_def alloc_def)
next
  fix x assume "x < length (heap (fresh env pkg t p))"
  show "Some (length (heap p)) \<notin> set (linksOf (heap (fresh env pkg t p) ! x))"
  proof (cases "x < length (heap p)")
    case True
    with linksValid_closed [OF assms True, of "length (heap p)"] show ?thesis
      by (auto simp: heap_fresh nth_append)
  next
    case False
    with \<open>x < length (heap (fresh env pkg t p))\<close> have "x = length (heap p)" by simp
    then show ?thesis by (simp add: heap_fresh)
  qed
qed

lemma unlinked_fresh_old:
  assumes "unlinked p x"
  shows "unlinked (fresh env pkg t p) x"
  unfolding unlinked_def
proof (intro conjI allI impI)
  fix k show "types (fresh env pkg t p) k \<noteq> Some x"
    using assms by (simp add: unlinked_def fresh_def alloc_def)
next
  fix y assume y: "y < length (heap (fresh env pkg t p))"
  show "Some x \<notin> set (linksOf (heap (fresh env pkg t p) ! y))"
  proof (cases "y < length (heap p)")
    case True
    with assms show ?thesis by (simp add: unlinked_def heap_fresh nth_append)
  next
    case False
    with y have "y = length (heap p)" by simp
    then show ?thesis by (simp add: heap_fresh)
  qed
qed

lemma keeps_fresh: "keeps p (fresh env pkg t p)"
  by (simp add: keeps_def unlinked_fresh_old)

lemma unlinked_upd:
  assumes "unlinked q x" "Some x \<notin> set (linksOf (f (heap q ! a)))"
  shows "unlinked (upd a f q) x"
  using assms unfolding unlinked_def by (simp add: heap_upd_nth)

lemma wf_upd_unlinked:
  assumes wf: "wellFormed q" and un: "unlinked q a" and a: "a < length (heap q)"
    and links: "\<And>y. Some y \<in> set (linksOf (f (heap q ! a))) \<Longrightarrow> y < length (heap q) \<and> y \<noteq> a"
  shows "wellFormed (upd a f q)"
proof -
  let ?S = "{x. x < length (heap q) \<and> x \<noteq> a}"
  have others: "\<exists>n. unwraps (heap (upd a f q)) n (Some x)" if "x \<in> ?S" for x
  proof -
    from that wf obtain n where "unwraps (heap q) n (Some x)" by (auto dest: wf_unwraps)
    then have "unwraps (heap (upd a f q)) n (Some x)"
    proof (rule unwraps_agree [where S = ?S, rotated 2])
      show "\<And>z. Some x = Some z \<Longrightarrow> z \<in> ?S" using that by simp
      show "\<And>z. z \<in> ?S \<Longrightarrow> heap (upd a f q) ! z = heap q ! z" by (simp add: heap_upd_nth)
      show "\<And>z y. z \<in> ?S \<Longrightarrow> Some y \<in> set (linksOf (heap q ! z)) \<Longrightarrow> y \<in> ?S"
        using linksValid_closed [OF wf] un unfolding unlinked_def by auto
    qed
    then show ?thesis ..
  qed
  show ?thesis unfolding wellFormed_def
  proof (intro conjI allI impI)
    fix k b assume "types (upd a f q) k = Some b"
    with wf show "b < length (heap (upd a f q))" by (auto dest: wf_types_valid)
  next
    fix x y assume "x < length (heap (upd a f q))"
      and "Some y \<in> set (linksOf (heap (upd a f q) ! x))"
    then show "y < length (heap (upd a f q))"
      using links [of y] linksValid_closed [OF wf, of x y] a
      by (cases "x = a") (simp_all add: heap_upd_nth)
  next
    fix x assume x: "x < length (heap (upd a f q))"
    show "\<exists>n. unwraps (heap (upd a f q)) n (Some x)"
    proof (cases "x = a")
      case False
      with x show ?thesis by (intro others) simp
    next
      case True
      have "\<forall>l \<in> set (unwrapLinks (f (heap q ! a))). \<exists>n. unwraps (heap (upd a f q)) n l"
      proof
        fix l assume l: "l \<in> set (unwrapLinks (f (heap q ! a)))"
        show "\<exists>n. unwraps (heap (upd a f q)) n l"
        proof (cases l)
          case None
          then show ?thesis by simp
        next
          case (Some y)
          with l unwrapLinks_subset have "Some y \<in> set (linksOf (f (heap q ! a)))" by auto
          from links [OF this] Some show ?thesis by (auto intro: others)
        qed
      qed
      then obtain n where "\<forall>l \<in> set (unwrapLinks (f (heap q ! a))). unwraps (heap (upd a f q)) n l"
        by (blast dest: unwraps_max)
      then have "unwraps (heap (upd a f q)) (Suc n) (Some x)"
        using True a by (simp add: heap_upd_nth)
      then show ?thesis ..
    qed
  qed
qed

lemma wf_upd_shape:
  assumes wf: "wellFormed q" and links: "\<And>n. linksOf (f n) = linksOf n"
    and fewer: "\<And>n. set (unwrapLinks (f n)) \<subseteq> set (unwrapLinks n)"
  shows "wellFormed (upd a f q)"
  unfolding wellFormed_def
proof (intro conjI allI impI)
  fix k b assume "types (upd a f q) k = Some b"
  with wf show "b < length (heap (upd a f q))" by (auto dest: wf_types_valid)
next
  fix x y assume "x < length (heap (upd a f q))"
    and "Some y \<in> set (linksOf (heap (upd a f q) ! x))"
  then show "y < length (heap (upd a f q))"
    using linksValid_closed [OF wf, of x y] by (simp add: heap_upd_nth links split: if_splits)
next
  fix x assume "x < length (heap (upd a f q))"
  with wf obtain n where "unwraps (heap q) n (Some x)" by (auto dest: wf_unwraps)
  then have "unwraps (heap (upd a f q)) n (Some x)"
    by (rule unwraps_fewer [rotated]) (simp add: heap_upd_nth fewer)
  then show "\<exists>n. unwraps (heap (upd a f q)) n (Some x)" ..
qed

lemma unwrapLinks_same:
  "Kind n' = Kind n \<Longrightarrow> linksOf n' = linksOf n \<Longrightarrow> unwrapLinks n' = unwrapLinks n"
  by (cases "Kind n") (simp_all add: unwrapLinks_def linksOf_def)

lemma wf_upd_same:
  assumes "wellFormed q" "\<And>n. linksOf (f n) = linksOf n" "\<And>n. Kind (f n) = Kind n"
  shows "wellFormed (upd a f q)"
proof (rule wf_upd_shape [OF assms(1,2)])
  fix n
  have "unwrapLinks (f n) = unwrapLinks n" by (rule unwrapLinks_same) (rule assms)+
  then show "set (unwrapLinks (f n)) \<subseteq> set (unwrapLinks n)" by simp
qed

lemma wf_upd_leaf:
  assumes "wellFormed q" "\<And>n. linksOf (f n) = linksOf n" "\<And>n. unwrapLinks (f n) = []"
  shows "wellFormed (upd a f q)"
  using assms(1,2) by (rule wf_upd_shape) (simp add: assms)

lemma unlinked_upd_shape:
  "unlinked q x \<Longrightarrow> (\<And>n. linksOf (f n) = linksOf n) \<Longrightarrow> unlinked (upd a f q) x"
  unfolding unlinked_def by (simp add: heap_upd_nth)

lemma keeps_upd_shape:
  "keeps p q \<Longrightarrow> (\<And>n. linksOf (f n) = linksOf n) \<Longrightarrow> keeps p (upd a f q)"
  unfolding keeps_def by (simp add: unlinked_upd_shape)

lemma wf_store: "wellFormed q \<Longrightarrow> a < length (heap q) \<Longrightarrow> wellFormed (store a q)"
  unfolding wellFormed_def store_def by simp

lemma keeps_store: "keeps p q \<Longrightarrow> length (heap p) \<le> a \<Longrightarrow> keeps p (store a q)"
  unfolding keeps_def unlinked_def store_def by auto

lemma wf_same: "heap q' = heap q \<Longrightarrow> types q' = types q \<Longrightarrow> wellFormed q' = wellFormed q"
  by (simp add: wellFormed_def)

lemma unlinked_same: "heap q' = heap q \<Longrightarrow> types q' = types q \<Longrightarrow> unlinked q' = unlinked q"
  by (simp add: unlinked_def fun_eq_iff)

lemma keeps_same: "keeps p q \<Longrightarrow> heap q' = heap q \<Longrightarrow> types q' = types q \<Longrightarrow> keeps p q'"
  unfolding keeps_def unlinked_def by simp

lemma wf_inheritPackage: "wellFormed q \<Longrightarrow> wellFormed (inheritPackage a u q)"
proof (cases u)
  case None
  then show "wellFormed q \<Longrightarrow> ?thesis" by (simp add: inheritPackage_def)
next
  case (Some ua)
  assume "wellFormed q"
  then have "wellFormed (upd a (\<lambda>n. n\<lparr> Package := Package (heap q ! ua) \<rparr>) q)"
    by (rule wf_upd_same) (simp_all add: linksOf_def)
  with Some show ?thesis by (simp add: inheritPackage_def)
qed

lemma keeps_inheritPackage: "keeps p q \<Longrightarrow> keeps p (inheritPackage a u q)"
proof (cases u)
  case None
  then show "keeps p q \<Longrightarrow> ?thesis" by (simp add: inheritPackage_def)
next
  case (Some ua)
  assume "keeps p q"
  then have "keeps p (upd a (\<lambda>n. n\<lparr> Package := Package (heap q ! ua) \<rparr>) q)"
    by (rule keeps_upd_shape) (simp add: linksOf_def)
  with Some show ?thesis by (simp add: inheritPackage_def)
qed

lemma length_inheritPackage [simp]: "length (heap (inheritPackage a u q)) = length (heap q)"
  by (cases u) (simp_all add: inheritPackage_def)

lemma length_store [simp]: "length (heap (store a q)) = length (heap q)"
  by (simp add: store_def)

lemma enter:
  fixes env pkg t p f
  assumes wf: "wellFormed p" and f: "\<And>n. linksOf (f n) = linksOf n"
  defines "q \<equiv> upd (length (heap p)) f (fresh env pkg t p)"
  shows "wellFormed q" "unlinked q (length (heap p))" "length (heap p) < length (heap q)" "keeps p q"
proof -
  let ?a = "length (heap p)"
  let ?p0 = "fresh env pkg t p"
  have wf0: "wellFormed ?p0" using wf by (rule wf_fresh)
  have un0: "unlinked ?p0 ?a" using wf by (rule unlinked_fresh_new)
  have "linksOf (f (heap ?p0 ! ?a)) = [None, None, None]" by (simp add: f heap_fresh)
  then show "wellFormed q" unfolding q_def
    by (intro wf_upd_unlinked [OF wf0 un0]) simp_all
  show "unlinked q ?a" unfolding q_def using un0 f by (rule unlinked_upd_shape)
  show "?a < length (heap q)" by (simp add: q_def)
  show "keeps p q" unfolding q_def using keeps_fresh f by (rule keeps_upd_shape)
qed

lemma nested_step:
  assumes wf: "wellFormed q" and un: "unlinked q a" and a: "a < length (heap q)"
    and kp: "keeps p q" and res: "resolved q u q1"
    and g: "\<And>n. set (linksOf (g n)) \<subseteq> insert u (set (linksOf n))"
  shows "wellFormed (upd a g q1)" "unlinked (upd a g q1) a" "a < length (heap (upd a g q1))"
    "keeps p (upd a g q1)" "\<And>y. u = Some y \<Longrightarrow> y < length (heap (upd a g q1))"
proof -
  from res have wf1: "wellFormed q1" and k1: "keeps q q1" by (simp_all add: resolved_def)
  from k1 a have a1: "a < length (heap q1)" by (simp add: keeps_def)
  from k1 a un have un1: "unlinked q1 a" by (simp add: keeps_def)
  have u: "y < length (heap q1) \<and> y \<noteq> a" if "u = Some y" for y
    using res that un a unfolding resolved_def by auto
  have links: "y < length (heap q1) \<and> y \<noteq> a" if "Some y \<in> set (linksOf (g (heap q1 ! a)))" for y
  proof -
    from that g [of "heap q1 ! a"] have "u = Some y \<or> Some y \<in> set (linksOf (heap q1 ! a))" by auto
    then show ?thesis
    proof
      assume "u = Some y" then show ?thesis by (rule u)
    next
      assume y: "Some y \<in> set (linksOf (heap q1 ! a))"
      with wf1 a1 have "y < length (heap q1)" by (rule linksValid_closed)
      moreover from un1 a1 y have "y \<noteq> a" unfolding unlinked_def by auto
      ultimately show ?thesis ..
    qed
  qed
  show "wellFormed (upd a g q1)" using wf1 un1 a1 links by (rule wf_upd_unlinked)
  show "a < length (heap (upd a g q1))" using a1 by simp
  show "\<And>y. u = Some y \<Longrightarrow> y < length (heap (upd a g q1))" using u by simp
  have keep: "unlinked (upd a g q1) x" if x: "unlinked q x" "x < length (heap q)" for x
  proof (rule unlinked_upd)
    from k1 x show x1: "unlinked q1 x" by (simp add: keeps_def)
    show "Some x \<notin> set (linksOf (g (heap q1 ! a)))"
    proof
      assume "Some x \<in> set (linksOf (g (heap q1 ! a)))"
      with g [of "heap q1 ! a"] have "u = Some x \<or> Some x \<in> set (linksOf (heap q1 ! a))" by auto
      then show False
      proof
        assume "u = Some x"
        with res x show False unfolding resolved_def by auto
      next
        assume "Some x \<in> set (linksOf (heap q1 ! a))"
        with x1 a1 show False unfolding unlinked_def by auto
      qed
    qed
  qed
  from keep [OF un a] show "unlinked (upd a g q1) a" .
  show "keeps p (upd a g q1)" unfolding keeps_def
  proof (intro conjI allI impI)
    from kp k1 show "length (heap p) \<le> length (heap (upd a g q1))" by (simp add: keeps_def)
    fix x assume "x < length (heap p)" "unlinked p x"
    with kp have "unlinked q x" "x < length (heap q)" by (auto simp: keeps_def)
    then show "unlinked (upd a g q1) x" by (rule keep)
  qed
qed

lemma finish:
  assumes "wellFormed q" "keeps p q" "length (heap p) < length (heap q)"
  shows "resolved p (Some (length (heap p))) (store (length (heap p)) q)"
  using assms by (simp add: resolved_def wf_store keeps_store)

lemma resolved_same:
  "resolved p r q \<Longrightarrow> heap q' = heap q \<Longrightarrow> types q' = types q \<Longrightarrow> resolved p r q'"
  unfolding resolved_def keeps_def unlinked_def wellFormed_def by simp

lemma resolved_fresh_result:
  assumes "wellFormed q" "keeps p q" "length (heap p) < length (heap q)"
  shows "resolved p (Some (length (heap p))) q"
  using assms by (simp add: resolved_def)

lemma linksOf_Kind [simp]: "linksOf (n\<lparr> Kind := k \<rparr>) = linksOf n"
  by (simp add: linksOf_def)

lemma linksOf_Imported [simp]: "linksOf (n\<lparr> Imported := k \<rparr>) = linksOf n"
  by (simp add: linksOf_def)

lemma linksOf_Fields [simp]: "linksOf (n\<lparr> Fields := k \<rparr>) = linksOf n"
  by (simp add: linksOf_def)

lemma linksOf_Name [simp]: "linksOf (n\<lparr> Name := k \<rparr>) = linksOf n"
  by (simp add: linksOf_def)

lemma linksOf_Package [simp]: "linksOf (n\<lparr> Package := k \<rparr>) = linksOf n"
  by (simp add: linksOf_def)

lemma addReference_heap: "addReference a c q = Some q' \<Longrightarrow> heap q' = heap q"
  using addReference_effect by blast

lemma wf_addReference: "wellFormed q \<Longrightarrow> addReference a c q = Some q' \<Longrightarrow> wellFormed q'"
  using addReference_effect [of a c q q'] unfolding wellFormed_def by simp

lemma keeps_addReference: "keeps p q \<Longrightarrow> addReference a c q = Some q' \<Longrightarrow> keeps p q'"
  using addReference_effect [of a c q q'] by (auto intro: keeps_same)

lemma processType_total:
  "wellFormed p \<Longrightarrow>
     \<exists>r p'. processType env pkg parentType t depth p = Some (r, p') \<and> resolved p r p'"
  and processStructFields_total:
  "wellFormed p \<Longrightarrow>
     \<exists>p'. processStructFields env parent pkg key fs depth p = Some p' \<and>
          wellFormed p' \<and> keeps p p'"
proof (induction env pkg parentType t depth p and env parent pkg key fs depth p
    rule: processType_processStructFields.induct)
  case (1 env pkg parentType t depth p)
  note wf = "1.prems"
  note IH = "1.IH"
  let ?a = "length (heap p)"
  let ?p0 = "fresh env pkg t p"
  show ?case
  proof (cases "types p (Key (mkType env pkg t))")
    case (Some a)
    from wf Some have "a < length (heap p)" by (rule wf_types_valid)
    moreover from Some have "\<not> unlinked p a" by (auto simp: unlinked_def)
    ultimately have "resolved p (Some a) p" using wf by (simp add: resolved_def keeps_refl)
    with processType_hit [OF Some] show ?thesis by blast
  next
    case None
    note miss = processType_miss [OF None, of parentType depth, unfolded Let_def]
    show ?thesis
    proof (cases "maxDepth env < depth")
      case True
      have lk: "\<And>n. linksOf (n\<lparr> Kind := UnknownKind \<rparr>) = linksOf n" by simp
      have "resolved p (Some ?a) (upd ?a (\<lambda>n. n\<lparr> Kind := UnknownKind \<rparr>) ?p0)"
        using enter [OF wf lk] by (intro resolved_fresh_result)
      with miss True show ?thesis by simp
    next
      case False
      show ?thesis
      proof (cases t)
        case (Named pk n)
        show ?thesis
        proof (cases "importPkg env pkg (Package (heap ?p0 ! ?a))")
          case inone: None
          have "resolved p (Some ?a) ?p0"
            using wf by (intro resolved_fresh_result wf_fresh keeps_fresh) simp_all
          with miss False Named inone show ?thesis by simp
        next
          case (Some pkg')
          let ?q = "upd ?a (\<lambda>n. n\<lparr> Kind := AliasKind \<rparr>) ?p0"
          have lk: "\<And>n. linksOf (n\<lparr> Kind := AliasKind \<rparr>) = linksOf n" by simp
        note q = enter [OF wf lk]
          from IH(1) [OF None refl refl False Named Some q(1)] obtain u p1 where
            n1: "processType env pkg' (Some ?a) (Underlying env pk n) (depth + 1) ?q = Some (u, p1)"
            and r1: "resolved ?q u p1" by blast
          let ?pU = "upd ?a (\<lambda>n. n\<lparr> UnderlyingType := u \<rparr>) p1"
          note s = nested_step [OF q(1,2,3,4) r1, of "\<lambda>n. n\<lparr> UnderlyingType := u \<rparr>"]
          have g: "\<And>n. set (linksOf (n\<lparr> UnderlyingType := u \<rparr>)) \<subseteq> insert u (set (linksOf n))"
            by (auto simp: linksOf_def)
          from s(1) [OF g] s(5) [OF g] have "\<exists>m. unwraps (heap ?pU) m u"
            by (intro wf_unwraps_opt)
          then obtain p2 where ar: "addReference ?a u ?pU = Some p2"
            by (blast dest: addReference_total)
          have "resolved p (Some ?a) (store ?a p2)"
          proof (rule finish)
            show "wellFormed p2" using s(1) [OF g] ar by (rule wf_addReference)
            show "keeps p p2" using s(4) [OF g] ar by (rule keeps_addReference)
            show "?a < length (heap p2)" using s(3) [OF g] addReference_heap [OF ar] by simp
          qed
          with miss False Named Some n1 ar show ?thesis by simp
        qed
      next
        case (Struct s)
        show ?thesis
        proof (cases parentType)
          case pnone: None
          let ?f = "\<lambda>n. n\<lparr> Name := [], Package := [], Kind := UnsupportedKind \<rparr>"
          have lk: "\<And>n. linksOf (?f n) = linksOf n" by simp
        note q = enter [OF wf lk]
          have "resolved p (Some ?a) (store ?a (upd ?a ?f ?p0))"
            using q by (intro finish) simp_all
          with miss False Struct pnone show ?thesis by simp
        next
          case (Some parent)
          let ?p1 = "upd parent (\<lambda>n. n\<lparr> Kind := StructKind \<rparr>) ?p0"
          have wf1: "wellFormed ?p1"
            using wf by (intro wf_upd_leaf wf_fresh) (simp_all add: unwrapLinks_def)
          have k1: "keeps p ?p1" by (intro keeps_upd_shape keeps_fresh) simp
          show ?thesis
          proof (cases "LookupType env pkg (Name (heap ?p1 ! parent))")
            case lnone: None
            from wf1 k1 have "resolved p None ?p1" by (simp add: resolved_def)
            with miss False Struct Some lnone show ?thesis by simp
          next
            case info: (Some info)
            from IH(2) [OF None refl refl False Struct Some refl info wf1] obtain p2 where
              n1: "processStructFields env parent pkg (Key (heap ?p1 ! parent)) (InfoFields info)
                     depth ?p1 = Some p2"
              and r1: "wellFormed p2" "keeps ?p1 p2" by blast
            from r1 k1 have "resolved p None p2"
              by (auto simp: resolved_def intro: keeps_trans)
            with miss False Struct Some info n1 show ?thesis by simp
          qed
        qed
      next
        case (Pointer elem)
        let ?q = "upd ?a (\<lambda>n. n\<lparr> Kind := PointerKind \<rparr>) ?p0"
        have lk: "\<And>n. linksOf (n\<lparr> Kind := PointerKind \<rparr>) = linksOf n" by simp
        note q = enter [OF wf lk]
        from IH(3) [OF None refl refl False Pointer q(1)] obtain u p1 where
          n1: "processType env pkg (Some ?a) elem (depth + 1) ?q = Some (u, p1)"
          and r1: "resolved ?q u p1" by blast
        let ?pU = "upd ?a (\<lambda>n. n\<lparr> UnderlyingType := u \<rparr>) p1"
        note s = nested_step [OF q(1,2,3,4) r1, of "\<lambda>n. n\<lparr> UnderlyingType := u \<rparr>"]
        have g: "\<And>n. set (linksOf (n\<lparr> UnderlyingType := u \<rparr>)) \<subseteq> insert u (set (linksOf n))"
          by (auto simp: linksOf_def)
        have "resolved p (Some ?a) (store ?a (inheritPackage ?a u ?pU))"
          using s(1) [OF g] s(3) [OF g] s(4) [OF g]
          by (intro finish wf_inheritPackage keeps_inheritPackage) simp_all
        with miss False Pointer n1 show ?thesis by simp
      next
        case (Slice elem)
        let ?q = "upd ?a (\<lambda>n. n\<lparr> Kind := SliceKind \<rparr>) ?p0"
        have lk: "\<And>n. linksOf (n\<lparr> Kind := SliceKind \<rparr>) = linksOf n" by simp
        note q = enter [OF wf lk]
        from IH(4) [OF None refl refl False Slice q(1)] obtain u p1 where
          n1: "processType env pkg (Some ?a) elem (depth + 1) ?q = Some (u, p1)"
          and r1: "resolved ?q u p1" by blast
        let ?pU = "upd ?a (\<lambda>n. n\<lparr> UnderlyingType := u \<rparr>) p1"
        note s = nested_step [OF q(1,2,3,4) r1, of "\<lambda>n. n\<lparr> UnderlyingType := u \<rparr>"]
        have g: "\<And>n. set (linksOf (n\<lparr> UnderlyingType := u \<rparr>)) \<subseteq> insert u (set (linksOf n))"
          by (auto simp: linksOf_def)
        have "resolved p (Some ?a) (store ?a (inheritPackage ?a u ?pU))"
          using s(1) [OF g] s(3) [OF g] s(4) [OF g]
          by (intro finish wf_inheritPackage keeps_inheritPackage) simp_all
        with miss False Slice n1 show ?thesis by simp
      next
        case (Map key elem)
        let ?q = "upd ?a (\<lambda>n. n\<lparr> Kind := MapKind \<rparr>) ?p0"
        have lk: "\<And>n. linksOf (n\<lparr> Kind := MapKind \<rparr>) = linksOf n" by simp
        note q = enter [OF wf lk]
        from IH(5) [OF None refl refl False Map q(1)] obtain k p1 where
          n1: "processType env pkg (Some ?a) key (depth + 1) ?q = Some (k, p1)"
          and r1: "resolved ?q k p1" by blast
        let ?pK = "upd ?a (\<lambda>n. n\<lparr> KeyType := k \<rparr>) p1"
        note s = nested_step [OF q(1,2,3,4) r1, of "\<lambda>n. n\<lparr> KeyType := k \<rparr>"]
        have g: "\<And>n. set (linksOf (n\<lparr> KeyType := k \<rparr>)) \<subseteq> insert k (set (linksOf n))"
          by (auto simp: linksOf_def)
        from IH(6) [OF None refl refl False Map n1 refl s(1) [OF g]] obtain v p2 where
          n2: "processType env pkg (Some ?a) elem (depth + 1) ?pK = Some (v, p2)"
          and r2: "resolved ?pK v p2" by blast
        let ?pV = "upd ?a (\<lambda>n. n\<lparr> ValueType := v \<rparr>) p2"
        note s2 = nested_step [OF s(1) [OF g] s(2) [OF g] s(3) [OF g] s(4) [OF g] r2,
            of "\<lambda>n. n\<lparr> ValueType := v \<rparr>"]
        have g2: "\<And>n. set (linksOf (n\<lparr> ValueType := v \<rparr>)) \<subseteq> insert v (set (linksOf n))"
          by (auto simp: linksOf_def)
        have "resolved p (Some ?a) (store ?a (inheritPackage ?a v ?pV))"
          using s2(1) [OF g2] s2(3) [OF g2] s2(4) [OF g2]
          by (intro finish wf_inheritPackage keeps_inheritPackage) simp_all
        with miss False Map n1 n2 show ?thesis by simp
      next
        case (Basic b)
        let ?f = "\<lambda>n. n\<lparr> Kind := BasicKind, Package := [] \<rparr>"
        have lk: "\<And>n. linksOf (?f n) = linksOf n" by simp
        note q = enter [OF wf lk]
        have "resolved p (Some ?a) (store ?a (upd ?a ?f ?p0))"
          using q by (intro finish) simp_all
        with miss False Basic show ?thesis by simp
      next
        case (Interface i)
        let ?f = "\<lambda>n. n\<lparr> Kind := InterfaceKind \<rparr>"
        have lk: "\<And>n. linksOf (?f n) = linksOf n" by simp
        note q = enter [OF wf lk]
        have "resolved p (Some ?a) (store ?a (upd ?a ?f ?p0))"
          using q by (intro finish) simp_all
        with miss False Interface show ?thesis by simp
      next
        case (Other x)
        let ?f = "\<lambda>n. n\<lparr> Kind := UnsupportedKind \<rparr>"
        have lk: "\<And>n. linksOf (?f n) = linksOf n" by simp
        note q = enter [OF wf lk]
        have "resolved p (Some ?a) (store ?a (upd ?a ?f ?p0))"
          using q by (intro finish) simp_all
        with miss False Other show ?thesis by simp
      qed
    qed
  qed
next
  case (2 env parent pkg parentTypeKey depth p)
  then show ?case by (simp add: processStructFields.simps keeps_refl)
next
  case (3 env parent pkg parentTypeKey f fs depth p)
  note wf = "3.prems"
  note eq = processStructFields.simps(2) [of env parent pkg parentTypeKey f fs depth p]
  show ?case
  proof (cases "FieldInfoType f")
    case None
    from "3.IH"(1) [OF None wf] None show ?thesis by (simp add: eq)
  next
    case (Some t)
    from "3.IH"(2) [OF Some wf] obtain r p1 where
      n1: "processType env pkg None t depth p = Some (r, p1)" and r1: "resolved p r p1" by blast
    from r1 have wf1: "wellFormed p1" and k1: "keeps p p1" by (simp_all add: resolved_def)
    show ?thesis
    proof (cases r)
      case None
      from "3.IH"(3) [OF Some n1 refl None wf1] obtain p' where
        "processStructFields env parent pkg parentTypeKey fs depth p1 = Some p'"
        "wellFormed p'" "keeps p1 p'" by blast
      with k1 Some n1 None show ?thesis by (auto simp: eq intro: keeps_trans)
    next
      case ta: (Some ta)
      let ?p2 = "upd ta (\<lambda>n. n\<lparr> Imported := False \<rparr>) p1"
      let ?fd = "mkField f ta ?p2"
      from r1 ta have ta1: "ta < length (heap p1)" by (simp add: resolved_def)
      have wf2: "wellFormed ?p2" using wf1 by (rule wf_upd_same) simp_all
      have k2: "keeps p ?p2" using k1 by (rule keeps_upd_shape) simp
      show ?thesis
      proof (cases "shouldIgnoreField env parentTypeKey (FieldName ?fd)")
        case True
        from "3.IH"(4) [OF Some n1 refl ta refl refl True wf2] obtain p' where
          "processStructFields env parent pkg parentTypeKey fs depth ?p2 = Some p'"
          "wellFormed p'" "keeps ?p2 p'" by blast
        with k2 Some n1 ta True show ?thesis by (auto simp: eq Let_def intro: keeps_trans)
      next
        case False
        let ?pF = "upd parent (\<lambda>n. n\<lparr> Fields := Fields n @ [?fd] \<rparr>) ?p2"
        have wfF: "wellFormed ?pF" using wf2 by (rule wf_upd_same) simp_all
        have kF: "keeps p ?pF" using k2 by (rule keeps_upd_shape) simp
        from wfF ta1 have "\<exists>m. unwraps (heap ?pF) m (Some ta)" by (intro wf_unwraps) simp_all
        then obtain p3 where ar: "addReference parent (Some ta) ?pF = Some p3"
          by (blast dest: addReference_total)
        have wf3: "wellFormed p3" using wfF ar by (rule wf_addReference)
        have k3: "keeps p p3" using kF ar by (rule keeps_addReference)
        from "3.IH"(5) [OF Some n1 refl ta refl refl False ar wf3] obtain p' where
          "processStructFields env parent pkg parentTypeKey fs depth p3 = Some p'"
          "wellFormed p'" "keeps p3 p'" by blast
        with k3 Some n1 ta False ar show ?thesis by (auto simp: eq Let_def intro: keeps_trans)
      qed
    qed
  qed
qed


lemma Package_attachDoc [simp]: "Package (attachDoc env pkg n) = Package n"
  by (simp add: attachDoc_def split: option.splits)

lemma processType_result:
  assumes "processType env pkg parentType t depth p = Some (Some a, p')"
    and "types p (Key (mkType env pkg t)) = None"
  shows "a = length (heap p)" and "ID (heap p' ! a) = ID (mkType env pkg t)"
proof -
  let ?a = "length (heap p)"
  have "a = ?a \<and> ID (heap p' ! ?a) = ID (mkType env pkg t)"
    using assms(1)
  proof (cases rule: processType_cases)
    case (hit b)
    from hit(1) assms(2) show ?thesis by simp
  next
    case deep
    from deep(3,4) show ?thesis by (simp add: ID_upd ID_fresh)
  next
    case (unimported pk n)
    from unimported(5,6) show ?thesis by (simp add: ID_fresh)
  next
    case (named pk n pkg' u p1 p2)
    note nested = processType_frame [OF named(5)]
    have "heap p2 = heap (upd ?a (\<lambda>n. n\<lparr> UnderlyingType := u \<rparr>) p1)"
      using addReference_effect [OF named(6)] by simp
    then have "ID (heap p2 ! ?a) = ID (mkType env pkg t)"
      using ID_nested [OF nested] by (simp add: ID_upd)
    with named(7,8) show ?thesis by (simp add: store_def)
  next
    case (absorbed s parent info)
    from absorbed(7) show ?thesis by simp
  next
    case (absorbed_noinfo s parent)
    from absorbed_noinfo(6) show ?thesis by simp
  next
    case (anonymous s)
    from anonymous(5,6) show ?thesis by (simp add: store_def ID_upd ID_fresh)
  next
    case (pointer elem u p1)
    note nested = processType_frame [OF pointer(4)]
    from pointer(5,6) ID_nested [OF nested] show ?thesis
      by (simp add: store_def ID_inheritPackage ID_upd)
  next
    case (slice elem u p1)
    note nested = processType_frame [OF slice(4)]
    from slice(5,6) ID_nested [OF nested] show ?thesis
      by (simp add: store_def ID_inheritPackage ID_upd)
  next
    case (map key elem k p1 v p2)
    note nested = processType_frame [OF map(4)]
    note nested2 = processType_frame [OF map(5)]
    have a1: "?a < length (heap p1)" using nested by (simp add: frame_def)
    have "ID (heap p2 ! ?a) = ID (heap (upd ?a (\<lambda>n. n\<lparr> KeyType := k \<rparr>) p1) ! ?a)"
      using nested2 a1 by (intro ID_frame) simp_all
    then have "ID (heap p2 ! ?a) = ID (mkType env pkg t)"
      using ID_nested [OF nested] by (simp add: ID_upd)
    with map(6,7) show ?thesis by (simp add: store_def ID_inheritPackage ID_upd)
  next
    case (basic b)
    from basic(4,5) show ?thesis by (simp add: store_def ID_upd ID_fresh)
  next
    case (interface i)
    from interface(4,5) show ?thesis by (simp add: store_def ID_upd ID_fresh)
  next
    case (other x)
    from other(4,5) show ?thesis by (simp add: store_def ID_upd ID_fresh)
  qed
  then show "a = length (heap p)" and "ID (heap p' ! a) = ID (mkType env pkg t)" by simp_all
qed

lemma types_store: "types (store a q) (Key (heap q ! a)) = Some a"
  by (simp add: store_def)

lemma heap_store [simp]: "heap (store a q) = heap q"
  by (simp add: store_def)

lemma processType_stored:
  assumes "processType env pkg parentType t depth p = Some (Some a, p')"
    and "depth \<le> maxDepth env"
    and "\<And>pk n. t = Named pk n \<Longrightarrow> importPkg env pkg (Package (mkType env pkg t)) \<noteq> None"
  shows "types p' (Key (mkType env pkg t)) = Some a"
proof (cases "types p (Key (mkType env pkg t))")
  case (Some b)
  from assms(1) [unfolded processType_hit [OF Some]] Some show ?thesis by simp
next
  case None
  note res = processType_result [OF assms(1) None]
  have "types p' (Key (heap p' ! a)) = Some a"
    using assms(1)
  proof (cases rule: processType_cases)
    case (hit b)
    from hit(1) None show ?thesis by simp
  next
    case deep
    from deep(2) assms(2) show ?thesis by simp
  next
    case (unimported pk n)
    from unimported(4) assms(3) [OF unimported(3)] show ?thesis by (simp add: heap_fresh)
  next
    case (named pk n pkg' u p1 p2)
    show ?thesis unfolding named(8) using types_store [of "length (heap p)" p2] named(7) by simp
  next
    case (absorbed s parent info)
    from absorbed(7) show ?thesis by simp
  next
    case (absorbed_noinfo s parent)
    from absorbed_noinfo(6) show ?thesis by simp
  next
    case (anonymous s)
    show ?thesis unfolding anonymous(6) using types_store [of "length (heap p)"] anonymous(5) by simp
  next
    case (pointer elem u p1)
    show ?thesis unfolding pointer(6) using types_store [of "length (heap p)"] pointer(5) by simp
  next
    case (slice elem u p1)
    show ?thesis unfolding slice(6) using types_store [of "length (heap p)"] slice(5) by simp
  next
    case (map key elem k p1 v p2)
    show ?thesis unfolding map(7) using types_store [of "length (heap p)"] map(6) by simp
  next
    case (basic b)
    show ?thesis unfolding basic(5) using types_store [of "length (heap p)"] basic(4) by simp
  next
    case (interface i)
    show ?thesis unfolding interface(5) using types_store [of "length (heap p)"] interface(4) by simp
  next
    case (other x)
    show ?thesis unfolding other(5) using types_store [of "length (heap p)"] other(4) by simp
  qed
  with res(2) show ?thesis by (simp add: Key_def)
qed



lemma types_fresh [simp]: "types (fresh env pkg t p) = types p"
  by (simp add: fresh_def alloc_def)

lemma processType_deep:
  "types p (Key (mkType env pkg t)) = None \<Longrightarrow> maxDepth env < depth \<Longrightarrow>
   processType env pkg parentType t depth p =
     Some (Some (length (heap p)),
           upd (length (heap p)) (\<lambda>n. n\<lparr> Kind := UnknownKind \<rparr>) (fresh env pkg t p))"
  by (simp add: processType_miss Let_def)

lemma processType_unimported:
  "types p (Key (mkType env pkg (Named pk n))) = None \<Longrightarrow> depth \<le> maxDepth env \<Longrightarrow>
   importPkg env pkg (Package (mkType env pkg (Named pk n))) = None \<Longrightarrow>
   processType env pkg parentType (Named pk n) depth p =
     Some (Some (length (heap p)), fresh env pkg (Named pk n) p)"
  by (simp add: processType_miss Let_def heap_fresh)

lemma types_newProcessor [simp]: "types newProcessor k = None"
  by (simp add: newProcessor_def)

lemma heap_newProcessor [simp]: "heap newProcessor = []"
  by (simp add: newProcessor_def)

lemma consistent_newProcessor: "consistent newProcessor"
  by (simp add: consistent_def)

lemma consistent_fresh: "consistent p \<Longrightarrow> consistent (fresh env pkg t p)"
  by (auto simp: consistent_def heap_fresh nth_append less_Suc_eq)

lemma consistent_upd: "consistent q \<Longrightarrow> (\<And>n. ID (f n) = ID n) \<Longrightarrow> consistent (upd a f q)"
  by (simp add: consistent_def ID_upd)

lemma consistent_inheritPackage: "consistent q \<Longrightarrow> consistent (inheritPackage a u q)"
  by (cases u) (simp_all add: inheritPackage_def consistent_upd)

lemma consistent_store: "consistent q \<Longrightarrow> a < length (heap q) \<Longrightarrow> consistent (store a q)"
  by (simp add: consistent_def store_def Key_def)

lemma consistent_same: "heap q' = heap q \<Longrightarrow> types q' = types q \<Longrightarrow> consistent q' = consistent q"
  by (simp add: consistent_def)

lemma consistent_addReference:
  "consistent q \<Longrightarrow> addReference a c q = Some q' \<Longrightarrow> consistent q'"
  using addReference_effect [of a c q q'] by (simp add: consistent_def)

lemma frame_length: "frame parent q q' \<Longrightarrow> length (heap q) \<le> length (heap q')"
  by (simp add: frame_def)

lemma enter_length:
  "frame parent (upd (length (heap p)) f (fresh env pkg t p)) q \<Longrightarrow> length (heap p) < length (heap q)"
  by (drule frame_length) simp

lemma processType_consistent:
  "processType env pkg parentType t depth p = Some (r, p') \<Longrightarrow> consistent p \<Longrightarrow> consistent p'"
  and processStructFields_consistent:
  "processStructFields env parent pkg key fs depth p = Some p' \<Longrightarrow> consistent p \<Longrightarrow> consistent p'"
proof (induction env pkg parentType t depth p and env parent pkg key fs depth p
    arbitrary: r p' and p' rule: processType_processStructFields.induct)
  case (1 env pkg parentType t depth p)
  let ?a = "length (heap p)"
  let ?p0 = "fresh env pkg t p"
  note IH = "1.IH"
  note c = "1.prems"(2)
  have c0: "\<And>f. (\<And>n. ID (f n) = ID n) \<Longrightarrow> consistent (upd ?a f ?p0)"
    using c by (intro consistent_upd consistent_fresh)
  from "1.prems"(1) show ?case
  proof (cases rule: processType_cases)
    case (hit a)
    then show ?thesis using c by simp
  next
    case deep
    show ?thesis unfolding deep(4) by (rule c0) simp
  next
    case (unimported pk n)
    show ?thesis unfolding unimported(6) using c by (rule consistent_fresh)
  next
    case (named pk n pkg' u p1 p2)
    have c1: "consistent p1"
      by (rule IH(1) [OF named(1) refl refl named(2-5)]) (rule c0, simp)
    have "consistent (upd ?a (\<lambda>n. n\<lparr> UnderlyingType := u \<rparr>) p1)"
      using c1 by (rule consistent_upd) simp
    then have c2: "consistent p2" using named(6) by (rule consistent_addReference)
    have "?a < length (heap p1)" using processType_frame [OF named(5)] by (rule enter_length)
    then have "?a < length (heap p2)" using addReference_heap [OF named(6)] by simp
    with c2 show ?thesis unfolding named(8) by (rule consistent_store)
  next
    case (absorbed s parent info)
    show ?thesis
      by (rule IH(2) [OF absorbed(1) refl refl absorbed(2-4) refl absorbed(5,6)])
         (intro consistent_upd consistent_fresh c, simp)
  next
    case (absorbed_noinfo s parent)
    show ?thesis unfolding absorbed_noinfo(7) using c
      by (intro consistent_upd consistent_fresh) simp_all
  next
    case (anonymous s)
    show ?thesis unfolding anonymous(6)
      by (intro consistent_store c0) simp_all
  next
    case (pointer elem u p1)
    have c1: "consistent p1"
      by (rule IH(3) [OF pointer(1) refl refl pointer(2-4)]) (rule c0, simp)
    have "?a < length (heap p1)" using processType_frame [OF pointer(4)] by (rule enter_length)
    then show ?thesis unfolding pointer(6) using c1
      by (intro consistent_store consistent_inheritPackage consistent_upd) simp_all
  next
    case (slice elem u p1)
    have c1: "consistent p1"
      by (rule IH(4) [OF slice(1) refl refl slice(2-4)]) (rule c0, simp)
    have "?a < length (heap p1)" using processType_frame [OF slice(4)] by (rule enter_length)
    then show ?thesis unfolding slice(6) using c1
      by (intro consistent_store consistent_inheritPackage consistent_upd) simp_all
  next
    case (map key elem k p1 v p2)
    have c1: "consistent p1"
      by (rule IH(5) [OF map(1) refl refl map(2-4)]) (rule c0, simp)
    have cK: "consistent (upd ?a (\<lambda>n. n\<lparr> KeyType := k \<rparr>) p1)"
      using c1 by (rule consistent_upd) simp
    have c2: "consistent p2"
      using IH(6) [OF map(1) refl refl map(2-4) refl map(5)] cK .
    have "?a < length (heap p1)" using processType_frame [OF map(4)] by (rule enter_length)
    then have "?a < length (heap p2)" using frame_length [OF processType_frame [OF map(5)]] by simp
    then show ?thesis unfolding map(7) using c2
      by (intro consistent_store consistent_inheritPackage consistent_upd) simp_all
  next
    case (basic b)
    show ?thesis unfolding basic(5) by (intro consistent_store c0) simp_all
  next
    case (interface i)
    show ?thesis unfolding interface(5) by (intro consistent_store c0) simp_all
  next
    case (other x)
    show ?thesis unfolding other(5) by (intro consistent_store c0) simp_all
  qed
next
  case (2 env parent pkg parentTypeKey depth p)
  then show ?case by (simp add: processStructFields.simps)
next
  case (3 env parent pkg parentTypeKey f fs depth p)
  note c = "3.prems"(2)
  from "3.prems"(1) show ?case
  proof (cases rule: processStructFields_Cons_cases)
    case untyped
    then show ?thesis using "3.IH"(1) c by simp
  next
    case (unresolved t p1)
    have "consistent p1" using "3.IH"(2) [OF unresolved(1,2)] c .
    then show ?thesis using "3.IH"(3) [OF unresolved(1,2) refl refl unresolved(3)] by simp
  next
    case (excluded t ta p1)
    have "consistent p1" using "3.IH"(2) [OF excluded(1,2)] c .
    then have "consistent (upd ta (\<lambda>n. n\<lparr> Imported := False \<rparr>) p1)"
      by (rule consistent_upd) simp
    then show ?thesis using "3.IH"(4) [OF excluded(1,2) refl refl refl refl excluded(3,4)] by simp
  next
    case (retained t ta p1 p3)
    let ?p2 = "upd ta (\<lambda>n. n\<lparr> Imported := False \<rparr>) p1"
    let ?fd = "mkField f ta ?p2"
    have "consistent p1" using "3.IH"(2) [OF retained(1,2)] c .
    then have "consistent (upd parent (\<lambda>n. n\<lparr> Fields := Fields n @ [?fd] \<rparr>) ?p2)"
      by (intro consistent_upd) simp_all
    then have "consistent p3" using retained(4) by (rule consistent_addReference)
    then show ?thesis using "3.IH"(5) [OF retained(1,2) refl refl refl refl retained(3,4,5)] by simp
  qed
qed

lemma unwrapsTo_None [simp]: "\<not> unwrapsTo h None b"
  by (auto elim: unwrapsTo.cases)

lemma unwrapsTo_Some:
  "unwrapsTo h (Some c) b \<longleftrightarrow>
     (case Kind (h ! c) of
        SliceKind \<Rightarrow> unwrapsTo h (UnderlyingType (h ! c)) b
      | PointerKind \<Rightarrow> unwrapsTo h (UnderlyingType (h ! c)) b
      | MapKind \<Rightarrow> unwrapsTo h (KeyType (h ! c)) b \<or> unwrapsTo h (ValueType (h ! c)) b
      | AliasKind \<Rightarrow> b = c
      | StructKind \<Rightarrow> b = c
      | _ \<Rightarrow> False)"
  by (subst unwrapsTo.simps) (auto split: Kind.splits)

lemma addReference_refs:
  "addReference parent child p = Some p' \<Longrightarrow>
     heap p' = heap p \<and>
     (\<forall>k. refsOf (references p') k =
        refsOf (references p) k \<union>
        {v. v = Key (heap p ! parent) \<and> (\<exists>b. unwrapsTo (heap p) child b \<and> Key (heap p ! b) = k)})"
proof (erule addReference.raw_induct [rotated], goal_cases)
  case (1 f parent child p p')
  show ?case
  proof (cases child)
    case None
    with 1(2) show ?thesis by simp
  next
    case (Some c)
    note eq = 1(2) [unfolded Some option.case]
    show ?thesis
    proof (cases "Kind (heap p ! c)")
      case SliceKind
      with eq have "f parent (UnderlyingType (heap p ! c)) p = Some p'" by simp
      from 1(1) [OF this] show ?thesis unfolding Some unwrapsTo_Some [of _ c] SliceKind by simp
    next
      case PointerKind
      with eq have "f parent (UnderlyingType (heap p ! c)) p = Some p'" by simp
      from 1(1) [OF this] show ?thesis unfolding Some unwrapsTo_Some [of _ c] PointerKind by simp
    next
      case MapKind
      with eq obtain p1 where k: "f parent (KeyType (heap p ! c)) p = Some p1"
        and v: "f parent (ValueType (heap p1 ! c)) p1 = Some p'"
        by (auto simp: bind_eq_Some_conv)
      note K = 1(1) [OF k]
      note V = 1(1) [OF v]
      from K have h1: "heap p1 = heap p" by simp
      from V h1 have h: "heap p' = heap p" by simp
      have "refsOf (references p') k =
        refsOf (references p) k \<union>
        {v. v = Key (heap p ! parent) \<and> (\<exists>b. unwrapsTo (heap p) (Some c) b \<and> Key (heap p ! b) = k)}" for k
      proof -
        from V have "refsOf (references p') k = refsOf (references p1) k \<union>
          {v. v = Key (heap p ! parent) \<and> (\<exists>b. unwrapsTo (heap p) (ValueType (heap p ! c)) b \<and> Key (heap p ! b) = k)}"
          unfolding h1 by blast
        moreover from K have "refsOf (references p1) k = refsOf (references p) k \<union>
          {v. v = Key (heap p ! parent) \<and> (\<exists>b. unwrapsTo (heap p) (KeyType (heap p ! c)) b \<and> Key (heap p ! b) = k)}"
          by blast
        ultimately show ?thesis unfolding unwrapsTo_Some [of _ c] MapKind by auto
      qed
      with h show ?thesis unfolding Some by blast
    next
      case AliasKind
      with eq have "p' = record_ref parent c p" by simp
      then show ?thesis unfolding Some unwrapsTo_Some [of _ c] AliasKind
        by (auto simp: record_ref_def refsOf_refs_add)
    next
      case StructKind
      with eq have "p' = record_ref parent c p" by simp
      then show ?thesis unfolding Some unwrapsTo_Some [of _ c] StructKind
        by (auto simp: record_ref_def refsOf_refs_add)
    next
      case BasicKind
      with eq show ?thesis unfolding Some unwrapsTo_Some [of _ c] BasicKind by simp
    next
      case InterfaceKind
      with eq show ?thesis unfolding Some unwrapsTo_Some [of _ c] InterfaceKind by simp
    next
      case ArrayKind
      with eq show ?thesis unfolding Some unwrapsTo_Some [of _ c] ArrayKind by simp
    next
      case UnknownKind
      with eq show ?thesis unfolding Some unwrapsTo_Some [of _ c] UnknownKind by simp
    next
      case UnsupportedKind
      with eq show ?thesis unfolding Some unwrapsTo_Some [of _ c] UnsupportedKind by simp
    qed
  qed
qed


lemma frame_Kind:
  "frame None q q' \<Longrightarrow> x < length (heap q) \<Longrightarrow> Kind (heap q' ! x) = Kind (heap q ! x)"
  by (simp add: frame_def sameNode_def)

lemma frame_Fields:
  "frame None q q' \<Longrightarrow> x < length (heap q) \<Longrightarrow> Fields (heap q' ! x) = Fields (heap q ! x)"
  by (simp add: frame_def sameNode_def)

lemma frame_Name:
  "frame parent q q' \<Longrightarrow> x < length (heap q) \<Longrightarrow> Name (heap q' ! x) = Name (heap q ! x)"
  by (simp add: frame_def sameNode_def)

lemma frame_linksOf:
  "frame parent q q' \<Longrightarrow> x < length (heap q) \<Longrightarrow> linksOf (heap q' ! x) = linksOf (heap q ! x)"
  by (simp add: frame_def sameNode_def linksOf_def)

lemma frame_Imported:
  "frame parent q q' \<Longrightarrow> x < length (heap q) \<Longrightarrow> \<not> Imported (heap q ! x) \<Longrightarrow> \<not> Imported (heap q' ! x)"
  by (auto simp add: frame_def sameNode_def)

lemma frame_refsOf: "frame parent q q' \<Longrightarrow> refsOf (references q) k \<subseteq> refsOf (references q') k"
  by (simp add: frame_def)

lemma Kind_upd:
  "(\<And>n. Kind (f n) = Kind n) \<Longrightarrow> Kind (heap (upd a f q) ! x) = Kind (heap q ! x)"
  by (simp add: heap_upd_nth)

lemma Name_upd:
  "(\<And>n. Name (f n) = Name n) \<Longrightarrow> Name (heap (upd a f q) ! x) = Name (heap q ! x)"
  by (simp add: heap_upd_nth)

lemma processStructFields_Kind:
  "processStructFields env parent pkg key fs depth p = Some p' \<Longrightarrow> x < length (heap p) \<Longrightarrow>
     Kind (heap p' ! x) = Kind (heap p ! x)"
proof (induction fs arbitrary: p)
  case Nil
  then show ?case by (simp add: processStructFields.simps)
next
  case (Cons f fs)
  from Cons.prems(1) show ?case
  proof (cases rule: processStructFields_Cons_cases)
    case untyped
    from Cons.IH [OF untyped(2) Cons.prems(2)] show ?thesis .
  next
    case (unresolved t p1)
    note fr = processType_frame [OF unresolved(2)]
    from frame_length [OF fr] Cons.prems(2) have x: "x < length (heap p1)" by simp
    from Cons.IH [OF unresolved(3) x] frame_Kind [OF fr Cons.prems(2)] show ?thesis by simp
  next
    case (excluded t ta p1)
    note fr = processType_frame [OF excluded(2)]
    from frame_length [OF fr] Cons.prems(2) have x: "x < length (heap (upd ta (\<lambda>n. n\<lparr> Imported := False \<rparr>) p1))"
      by simp
    from Cons.IH [OF excluded(4) x] frame_Kind [OF fr Cons.prems(2)] show ?thesis
      by (simp add: Kind_upd)
  next
    case (retained t ta p1 p3)
    note fr = processType_frame [OF retained(2)]
    note h3 = addReference_heap [OF retained(4)]
    from frame_length [OF fr] Cons.prems(2) have x: "x < length (heap p3)"
      unfolding h3 by simp
    from Cons.IH [OF retained(5) x] frame_Kind [OF fr Cons.prems(2)] show ?thesis
      unfolding h3 by (simp add: Kind_upd)
  qed
qed

lemma unwrapsTo_transfer:
  assumes "unwrapsTo h c b"
    and "\<And>x. x < N \<Longrightarrow> Kind (h' ! x) = Kind (h ! x) \<and> linksOf (h' ! x) = linksOf (h ! x)"
    and "\<And>x y. x < N \<Longrightarrow> Some y \<in> set (linksOf (h ! x)) \<Longrightarrow> y < N"
    and "\<And>a. c = Some a \<Longrightarrow> a < N"
  shows "unwrapsTo h' c b \<and> b < N"
  using assms(1,4)
proof (induction rule: unwrapsTo.induct)
  case (target c)
  then have "c < N" by simp
  with target assms(2) [of c] show ?case by (auto intro: unwrapsTo.target)
next
  case (element c b)
  then have c: "c < N" by simp
  have "\<And>a. UnderlyingType (h ! c) = Some a \<Longrightarrow> a < N"
    using assms(3) [OF c] by (simp add: linksOf_def)
  from element.IH [OF this] have "unwrapsTo h' (UnderlyingType (h ! c)) b \<and> b < N" by simp
  moreover from assms(2) [OF c] have "UnderlyingType (h' ! c) = UnderlyingType (h ! c)"
    "Kind (h' ! c) = Kind (h ! c)" by (simp_all add: linksOf_def)
  ultimately show ?case using element.hyps(1) by (auto intro: unwrapsTo.element)
next
  case (mapKey c b)
  then have c: "c < N" by simp
  have "\<And>a. KeyType (h ! c) = Some a \<Longrightarrow> a < N"
    using assms(3) [OF c] by (simp add: linksOf_def)
  from mapKey.IH [OF this] have "unwrapsTo h' (KeyType (h ! c)) b \<and> b < N" by simp
  moreover from assms(2) [OF c] have "KeyType (h' ! c) = KeyType (h ! c)"
    "Kind (h' ! c) = Kind (h ! c)" by (simp_all add: linksOf_def)
  ultimately show ?case using mapKey.hyps(1) by (auto intro: unwrapsTo.mapKey)
next
  case (mapValue c b)
  then have c: "c < N" by simp
  have "\<And>a. ValueType (h ! c) = Some a \<Longrightarrow> a < N"
    using assms(3) [OF c] by (simp add: linksOf_def)
  from mapValue.IH [OF this] have "unwrapsTo h' (ValueType (h ! c)) b \<and> b < N" by simp
  moreover from assms(2) [OF c] have "ValueType (h' ! c) = ValueType (h ! c)"
    "Kind (h' ! c) = Kind (h ! c)" by (simp_all add: linksOf_def)
  ultimately show ?case using mapValue.hyps(1) by (auto intro: unwrapsTo.mapValue)
qed

lemma mkField_later:
  "frame fp q q' \<Longrightarrow> ta < length (heap q) \<Longrightarrow> mkField m ta q' = mkField m ta q"
  by (simp add: mkField_def Let_def frame_Name)

lemma retained_later:
  assumes r: "retained env key parent q m fd"
    and wf: "wellFormed q"
    and fr: "frame fp q q'"
    and kd: "\<And>x. x < length (heap q) \<Longrightarrow> Kind (heap q' ! x) = Kind (heap q ! x)"
    and pa: "parent < length (heap q)"
  shows "retained env key parent q' m fd"
proof -
  from r obtain t ta where ni: "\<not> shouldIgnoreField env key (FieldName fd)"
    and ty: "FieldInfoType m = Some t"
    and ta: "ta < length (heap q)" and id: "ID (heap q ! ta) = TypeString None t"
    and fd: "fd = mkField m ta q"
    and im: "\<not> Imported (heap q ! ta)"
    and rf: "\<And>b. unwrapsTo (heap q) (Some ta) b \<Longrightarrow>
           Key (heap q ! parent) \<in> refsOf (references q) (Key (heap q ! b))"
    unfolding retained_def by blast
  have 1: "ta < length (heap q')" using ta frame_length [OF fr] by simp
  have 2: "fd = mkField m ta q'" unfolding fd using mkField_later [OF fr ta] by simp
  have 3: "\<not> Imported (heap q' ! ta)" using frame_Imported [OF fr ta im] .
  have 5: "ID (heap q' ! ta) = TypeString None t" using ID_frame [OF fr ta] id by simp
  have 4: "Key (heap q' ! parent) \<in> refsOf (references q') (Key (heap q' ! b))"
    if u: "unwrapsTo (heap q') (Some ta) b" for b
  proof -
    have "unwrapsTo (heap q) (Some ta) b \<and> b < length (heap q)"
    proof (rule unwrapsTo_transfer [OF u])
      fix x assume "x < length (heap q)"
      then show "Kind (heap q ! x) = Kind (heap q' ! x) \<and> linksOf (heap q ! x) = linksOf (heap q' ! x)"
        using kd [of x] frame_linksOf [OF fr, of x] by simp
    next
      fix x y assume x: "x < length (heap q)" and "Some y \<in> set (linksOf (heap q' ! x))"
      then have "Some y \<in> set (linksOf (heap q ! x))" using frame_linksOf [OF fr x] by simp
      with wf x show "y < length (heap q)" unfolding wellFormed_def by blast
    next
      fix a assume "Some ta = Some a" with ta show "a < length (heap q)" by simp
    qed
    then have a: "unwrapsTo (heap q) (Some ta) b" and b: "b < length (heap q)" by simp_all
    from rf [OF a] have "Key (heap q ! parent) \<in> refsOf (references q) (Key (heap q ! b))" .
    then have "Key (heap q ! parent) \<in> refsOf (references q') (Key (heap q ! b))"
      using frame_refsOf [OF fr] by blast
    then show ?thesis using ID_frame [OF fr b] ID_frame [OF fr pa] by (simp add: Key_def)
  qed
  from ni ty 1 5 2 3 4 show ?thesis unfolding retained_def by blast
qed

lemma dropped_later:
  assumes d: "dropped env key q m" and fr: "frame fp q q'"
  shows "dropped env key q' m"
proof (cases "FieldInfoType m")
  case None
  then show ?thesis by (simp add: dropped_def)
next
  case (Some t)
  with d obtain ta where ta: "ta < length (heap q)" and id: "ID (heap q ! ta) = TypeString None t"
    and im: "\<not> Imported (heap q ! ta)"
    and ig: "shouldIgnoreField env key (FieldName (mkField m ta q))"
    unfolding dropped_def by auto
  have "ta < length (heap q')" using ta frame_length [OF fr] by simp
  moreover have "ID (heap q' ! ta) = TypeString None t" using ID_frame [OF fr ta] id by simp
  moreover have "\<not> Imported (heap q' ! ta)" using frame_Imported [OF fr ta im] .
  moreover have "shouldIgnoreField env key (FieldName (mkField m ta q'))"
    using ig mkField_later [OF fr ta] by simp
  ultimately show ?thesis using Some unfolding dropped_def by blast
qed

lemma Fields_upd_other:
  "(\<And>n. Fields (f n) = Fields n) \<Longrightarrow> Fields (heap (upd a f q) ! x) = Fields (heap q ! x)"
  by (simp add: heap_upd_nth)

lemma subseq_skip: "subseq ms fs \<Longrightarrow> subseq ms (f # fs)"
  by (rule list_emb_Cons)

lemma ID_mkType [simp]: "ID (mkType env pkg t) = TypeString None t"
  by (simp add: mkType_def Let_def split: option.splits)

lemma processType_parentless:
  assumes "processType env pkg None t depth p = Some (r, p')"
  shows "\<exists>a. r = Some a"
  using assms by (cases rule: processType_cases) simp_all

lemma processType_node:
  assumes run: "processType env pkg parentType t depth p = Some (Some a, p')"
    and wf: "wellFormed p" and co: "consistent p"
  shows "a < length (heap p')" "ID (heap p' ! a) = TypeString None t"
proof -
  from processType_total [OF wf, of env pkg parentType t depth] run
  show "a < length (heap p')" by (simp add: resolved_def)
  show "ID (heap p' ! a) = TypeString None t"
  proof (cases "types p (Key (mkType env pkg t))")
    case None
    from processType_result(2) [OF run None] show ?thesis by simp
  next
    case (Some b)
    from run [unfolded processType_hit [OF Some]] have "a = b" "p' = p" by simp_all
    with Some co show ?thesis by (simp add: consistent_def Key_def)
  qed
qed

lemma processStructFields_outcome:
  assumes "processStructFields env parent pkg key fs depth p = Some p'"
    and "wellFormed p" and "consistent p" and "parent < length (heap p)"
  shows "\<exists>outs. list_all2 (outcome env key parent p') fs outs \<and>
           Fields (heap p' ! parent) = Fields (heap p ! parent) @ somes outs"
  using assms
proof (induction fs arbitrary: p)
  case Nil
  then have "p' = p" by (simp add: processStructFields.simps)
  then have "list_all2 (outcome env key parent p') [] [] \<and>
           Fields (heap p' ! parent) = Fields (heap p ! parent) @ somes []" by simp
  then show ?case by blast
next
  case (Cons f fs)
  note wf = Cons.prems(2) and co = Cons.prems(3) and pa = Cons.prems(4)
  from Cons.prems(1) show ?case
  proof (cases rule: processStructFields_Cons_cases)
    case untyped
    from Cons.IH [OF untyped(2) wf co pa] obtain outs where
      "list_all2 (outcome env key parent p') fs outs"
      "Fields (heap p' ! parent) = Fields (heap p ! parent) @ somes outs" by blast
    then have "list_all2 (outcome env key parent p') (f # fs) (None # outs) \<and>
           Fields (heap p' ! parent) = Fields (heap p ! parent) @ somes (None # outs)"
      using untyped(1) by (simp add: outcome_def dropped_def)
    then show ?thesis by blast
  next
    case (unresolved t p1)
    from processType_parentless [OF unresolved(2)] show ?thesis by simp
  next
    case (excluded t ta p1)
    let ?p2 = "upd ta (\<lambda>n. n\<lparr> Imported := False \<rparr>) p1"
    note fr = processType_frame [OF excluded(2)]
    from processType_total [OF wf, of env pkg None t depth] excluded(2)
    have wf1: "wellFormed p1" by (simp add: resolved_def)
    note nd = processType_node [OF excluded(2) wf co]
    have co1: "consistent p1" using excluded(2) co by (rule processType_consistent)
    have wf2: "wellFormed ?p2" by (rule wf_upd_same [OF wf1]) simp_all
    have co2: "consistent ?p2" using co1 by (rule consistent_upd) simp
    from frame_length [OF fr] pa have pa2: "parent < length (heap ?p2)" by simp
    have d2: "dropped env key ?p2 f"
      unfolding dropped_def using excluded(1,3) nd by (auto simp: heap_upd_nth ID_upd)
    have "dropped env key p' f"
      using d2 processStructFields_frame [OF excluded(4)] by (rule dropped_later)
    moreover from Cons.IH [OF excluded(4) wf2 co2 pa2] obtain outs where
      "list_all2 (outcome env key parent p') fs outs"
      "Fields (heap p' ! parent) = Fields (heap ?p2 ! parent) @ somes outs" by blast
    ultimately have "list_all2 (outcome env key parent p') (f # fs) (None # outs) \<and>
           Fields (heap p' ! parent) = Fields (heap p ! parent) @ somes (None # outs)"
      using frame_Fields [OF fr pa] by (simp add: outcome_def Fields_upd_other)
    then show ?thesis by blast
  next
    case (retained t ta p1 p3)
    let ?p2 = "upd ta (\<lambda>n. n\<lparr> Imported := False \<rparr>) p1"
    let ?fd = "mkField f ta ?p2"
    let ?pF = "upd parent (\<lambda>n. n\<lparr> Fields := Fields n @ [?fd] \<rparr>) ?p2"
    note fr = processType_frame [OF retained(2)]
    from processType_total [OF wf, of env pkg None t depth] retained(2)
    have wf1: "wellFormed p1" by (simp add: resolved_def)
    note nd = processType_node [OF retained(2) wf co]
    note ta = nd(1)
    have co1: "consistent p1" using retained(2) co by (rule processType_consistent)
    have wf2: "wellFormed ?p2" by (rule wf_upd_same [OF wf1]) simp_all
    have wfF: "wellFormed ?pF" by (rule wf_upd_same [OF wf2]) simp_all
    have wf3: "wellFormed p3" using wfF retained(4) by (rule wf_addReference)
    have "consistent ?pF" using co1 by (intro consistent_upd) simp_all
    then have co3: "consistent p3" using retained(4) by (rule consistent_addReference)
    note h3 = addReference_heap [OF retained(4)]
    from frame_length [OF fr] pa have pa1: "parent < length (heap p1)" by simp
    then have pa3: "parent < length (heap p3)" unfolding h3 by simp
    have F3: "Fields (heap p3 ! parent) = Fields (heap p ! parent) @ [?fd]"
      unfolding h3 using pa1 frame_Fields [OF fr pa] by (auto simp add: heap_upd_nth)
    have r3: "retained env key parent p3 f ?fd"
      unfolding retained_def
    proof (intro conjI exI [of _ ta] exI [of _ t] allI impI)
      show "\<not> shouldIgnoreField env key (FieldName ?fd)" by (rule retained(3))
      show "FieldInfoType f = Some t" by (rule retained(1))
      show "ta < length (heap p3)" unfolding h3 using ta by simp
      show "ID (heap p3 ! ta) = TypeString None t" unfolding h3 using nd(2) by (simp add: ID_upd)
      have "Name (heap p3 ! ta) = Name (heap ?p2 ! ta)" unfolding h3 by (simp add: Name_upd)
      then show "?fd = mkField f ta p3" by (simp add: mkField_def Let_def)
      show "\<not> Imported (heap p3 ! ta)" unfolding h3 using ta by (auto simp add: heap_upd_nth)
    next
      fix b assume "unwrapsTo (heap p3) (Some ta) b"
      then have "unwrapsTo (heap ?pF) (Some ta) b" unfolding h3 .
      with addReference_refs [OF retained(4)]
      show "Key (heap p3 ! parent) \<in> refsOf (references p3) (Key (heap p3 ! b))"
        unfolding h3 by blast
    qed
    note fr3 = processStructFields_frame [OF retained(5)]
    have "retained env key parent p' f ?fd"
      using r3 wf3 fr3 processStructFields_Kind [OF retained(5)] pa3 by (rule retained_later)
    moreover from Cons.IH [OF retained(5) wf3 co3 pa3] obtain outs where
      "list_all2 (outcome env key parent p') fs outs"
      "Fields (heap p' ! parent) = Fields (heap p3 ! parent) @ somes outs" by blast
    ultimately have "list_all2 (outcome env key parent p') (f # fs) (Some ?fd # outs) \<and>
           Fields (heap p' ! parent) = Fields (heap p ! parent) @ somes (Some ?fd # outs)"
      using F3 by (simp add: outcome_def)
    then show ?thesis by blast
  qed
qed

lemma appendReferences_types [simp]: "types (appendReferences b refs p) = types p"
  by (induction refs arbitrary: p) (simp_all split: option.splits)

lemma appendReferences_length [simp]:
  "length (heap (appendReferences b refs p)) = length (heap p)"
  by (induction refs arbitrary: p) (simp_all split: option.splits)

lemma appendReferences_ID [simp]:
  "ID (heap (appendReferences b refs p) ! x) = ID (heap p ! x)"
  by (induction refs arbitrary: p) (simp_all add: ID_upd split: option.splits)

lemma appendReferences_References:
  "b < length (heap p) \<Longrightarrow>
   References (heap (appendReferences b refs p) ! b) =
     References (heap p ! b) @ List.map_filter (types p) refs"
proof (induction refs arbitrary: p)
  case Nil
  then show ?case by (simp add: map_filter_simps)
next
  case (Cons ref refs)
  show ?case
  proof (cases "types p ref")
    case None
    with Cons show ?thesis by (simp add: map_filter_simps)
  next
    case (Some rd)
    let ?p1 = "upd b (\<lambda>n. n\<lparr> References := References n @ [rd] \<rparr>) p"
    from Cons.prems have "b < length (heap ?p1)" by simp
    from Cons.IH [OF this] Some Cons.prems show ?thesis
      by (simp add: map_filter_simps heap_upd_nth)
  qed
qed

lemma appendReferences_other:
  "x \<noteq> b \<Longrightarrow> heap (appendReferences b refs p) ! x = heap p ! x"
  by (induction refs arbitrary: p) (simp_all add: heap_upd_nth split: option.splits)

lemma appendReferences_grows:
  "x < length (heap p) \<Longrightarrow>
   set (References (heap p ! x)) \<subseteq> set (References (heap (appendReferences b refs p) ! x))"
  by (cases "x = b") (simp_all add: appendReferences_References appendReferences_other)

lemma collectReferences_same:
  "collectReferences rs p = Inr p' \<Longrightarrow>
     types p' = types p \<and> length (heap p') = length (heap p) \<and>
     (\<forall>x. ID (heap p' ! x) = ID (heap p ! x))"
  by (induction rs arbitrary: p) (auto split: option.splits)

lemma collectReferences_grows:
  "collectReferences rs p = Inr p' \<Longrightarrow> x < length (heap p) \<Longrightarrow>
     set (References (heap p ! x)) \<subseteq> set (References (heap p' ! x))"
proof (induction rs arbitrary: p)
  case Nil
  then show ?case by simp
next
  case (Cons e rs)
  obtain k refs where e: "e = (k, refs)" by (cases e)
  from Cons.prems(1) obtain td where td: "types p k = Some td"
    and rest: "collectReferences rs (appendReferences td refs p) = Inr p'"
    unfolding e by (auto split: option.splits)
  from Cons.IH [OF rest] Cons.prems(2) appendReferences_grows [OF Cons.prems(2), of td refs]
  show ?case by auto
qed

lemma collectReferences_materialised:
  "collectReferences rs p = Inr p' \<Longrightarrow> (kb, vs) \<in> set rs \<Longrightarrow> types p kb = Some b \<Longrightarrow>
   b < length (heap p) \<Longrightarrow> ref \<in> set vs \<Longrightarrow> types p ref = Some rd \<Longrightarrow>
   rd \<in> set (References (heap p' ! b))"
proof (induction rs arbitrary: p)
  case Nil
  then show ?case by simp
next
  case (Cons e rs)
  obtain k refs where e: "e = (k, refs)" by (cases e)
  from Cons.prems(1) obtain td where td: "types p k = Some td"
    and rest: "collectReferences rs (appendReferences td refs p) = Inr p'"
    unfolding e by (auto split: option.splits)
  let ?p1 = "appendReferences td refs p"
  have b1: "b < length (heap ?p1)" using Cons.prems(4) by simp
  show ?case
  proof (cases "(kb, vs) = (k, refs)")
    case True
    with td Cons.prems(3) have "td = b" by simp
    have "rd \<in> set (List.map_filter (types p) refs)"
      using True Cons.prems(5,6) by (auto simp: map_filter_def intro!: image_eqI [of _ _ ref])
    then have "rd \<in> set (References (heap ?p1 ! b))"
      using appendReferences_References [OF Cons.prems(4), of refs] \<open>td = b\<close> by simp
    with collectReferences_grows [OF rest b1] show ?thesis by blast
  next
    case False
    with Cons.prems(2) e have "(kb, vs) \<in> set rs" by auto
    from Cons.IH [OF rest this _ b1 Cons.prems(5)] Cons.prems(3,6) show ?thesis by simp
  qed
qed

lemma refsOf_entry: "ka \<in> refsOf refs kb \<Longrightarrow> \<exists>vs. (kb, vs) \<in> set refs \<and> ka \<in> set vs"
  by (auto simp: refsOf_def split: option.splits dest: map_of_SomeD)

lemma assign_set: "(n, a) \<in> set (assign k v l) \<Longrightarrow> (n, a) = (k, v) \<or> (n, a) \<in> set l"
  by (induction l) (auto split: if_splits)

lemma detailsTypes_sound:
  "detailsTypes env p ts acc = Inr out \<Longrightarrow> (n, a) \<in> set out \<Longrightarrow>
     (n, a) \<in> set acc \<or>
     (\<exists>t. (n, t) \<in> set ts \<and> \<not> shouldIgnoreType env (Key (heap p ! t)) \<and>
           types p (Key (heap p ! t)) = Some a)"
proof (induction ts arbitrary: acc)
  case Nil
  then show ?case by simp
next
  case (Cons e ts)
  obtain name t where e: "e = (name, t)" by (cases e)
  show ?case
  proof (cases "shouldIgnoreType env (Key (heap p ! t))")
    case True
    with Cons.prems have "detailsTypes env p ts acc = Inr out" unfolding e by simp
    from Cons.IH [OF this Cons.prems(2)] show ?thesis by auto
  next
    case False
    with Cons.prems(1) obtain td where td: "types p (Key (heap p ! t)) = Some td"
      and rest: "detailsTypes env p ts (assign name td acc) = Inr out"
      unfolding e by (auto simp: Let_def split: option.splits)
    from Cons.IH [OF rest Cons.prems(2)] show ?thesis
    proof
      assume "(n, a) \<in> set (assign name td acc)"
      from assign_set [OF this] show ?thesis using False td e by auto
    next
      assume "\<exists>t. (n, t) \<in> set ts \<and> \<not> shouldIgnoreType env (Key (heap p ! t)) \<and>
           types p (Key (heap p ! t)) = Some a"
      then show ?thesis by auto
    qed
  qed
qed

lemma buildDetails_sound:
  "buildDetails env p gvs = Inr ds \<Longrightarrow> d \<in> set ds \<Longrightarrow> (n, a) \<in> set (DetailsTypes d) \<Longrightarrow>
     \<exists>gv gvi t. (gv, gvi) \<in> set gvs \<and> (n, t) \<in> set (gvtypes gvi) \<and>
        \<not> shouldIgnoreType env (Key (heap p ! t)) \<and> types p (Key (heap p ! t)) = Some a"
proof (induction gvs arbitrary: ds)
  case Nil
  then show ?case by simp
next
  case (Cons e gvs)
  obtain gv gvi where e: "e = (gv, gvi)" by (cases e)
  from Cons.prems(1) obtain ts ds' where ts: "detailsTypes env p (gvtypes gvi) [] = Inr ts"
    and rest: "buildDetails env p gvs = Inr ds'"
    and ds: "ds = \<lparr> DetailsGroup = Group gvi, DetailsVersion = Version gvi, DetailsDoc = doc gvi,
                      DetailsKinds = kinds gvi, DetailsTypes = ts \<rparr> # ds'"
    unfolding e by (auto split: sum.splits)
  show ?case
  proof (cases "d \<in> set ds'")
    case True
    from Cons.IH [OF rest True Cons.prems(3)] show ?thesis by auto
  next
    case False
    with Cons.prems(2,3) ds have "(n, a) \<in> set ts" by auto
    from detailsTypes_sound [OF ts this] obtain t where
      "(n, t) \<in> set (gvtypes gvi)" "\<not> shouldIgnoreType env (Key (heap p ! t))"
      "types p (Key (heap p ! t)) = Some a" by auto
    moreover have "(gv, gvi) \<in> set (e # gvs)" using e by simp
    ultimately show ?thesis by blast
  qed
qed

lemma set_insertStable [simp]: "set (insertStable d ds) = insert d (set ds)"
  by (induction ds) auto

lemma set_SliceStable [simp]: "set (SliceStable ds) = set ds"
  unfolding SliceStable_def by (induction ds) simp_all

lemma Process_Inr:
  assumes "Process env inl pkgs = Some (Inr (out, h))"
  obtains p p2 ds where "findAPITypes env pkgs newProcessor = Some (Inr p)"
    "collectReferences (references (inl p)) (inl p) = Inr p2"
    "buildDetails env p2 (groupVersions p2) = Inr ds" "out = SliceStable ds" "h = heap p2"
  using assms unfolding Process_def Let_def
  by (auto split: option.splits sum.splits)

lemma heap_gvUpdate [simp]: "heap (gvUpdate gv f p) = heap p"
  by (simp add: gvUpdate_def)

lemma types_gvUpdate [simp]: "types (gvUpdate gv f p) = types p"
  by (simp add: gvUpdate_def)

lemma references_gvUpdate [simp]: "references (gvUpdate gv f p) = references p"
  by (simp add: gvUpdate_def)

lemma groupVersions_upd [simp]: "groupVersions (upd a f p) = groupVersions p"
  by (simp add: upd_def)

lemma frame_groupVersions: "frame parent p p' \<Longrightarrow> groupVersions p' = groupVersions p"
  by (simp add: frame_def)

lemma loadType_cases [consumes 1, case_names known untyped resolved]:
  assumes "loadType env pkg info p = Some res"
  obtains
    (known) a where "types p (pkg @ ''.'' @ InfoName info) = Some a" "res = Inr (Some a, p)"
  | (untyped) "types p (pkg @ ''.'' @ InfoName info) = None" "InfoType info = None"
      "res = Inl NilPointer"
  | (resolved) t a p1 where "types p (pkg @ ''.'' @ InfoName info) = None" "InfoType info = Some t"
      "processType env pkg None t 0 p = Some (Some a, p1)" "res = Inr (Some a, p1)"
proof (cases "types p (pkg @ ''.'' @ InfoName info)")
  case (Some a)
  with assms have "res = Inr (Some a, p)" by (simp add: loadType_def)
  with Some show ?thesis by (rule known)
next
  case None
  show ?thesis
  proof (cases "InfoType info")
    case tnone: None
    with assms None have "res = Inl NilPointer" by (simp add: loadType_def)
    with None tnone show ?thesis by (rule untyped)
  next
    case (Some t)
    with assms None obtain r p1 where run: "processType env pkg None t 0 p = Some (r, p1)"
      and res: "res = Inr (r, p1)"
      by (auto simp: loadType_def split: option.splits)
    from processType_parentless [OF run] obtain a where "r = Some a" by blast
    with run res None Some show ?thesis by (intro resolved) simp_all
  qed
qed

lemma loadType_total:
  assumes "wellFormed p"
  shows "\<exists>res. loadType env pkg info p = Some res"
proof (cases "types p (pkg @ ''.'' @ InfoName info)")
  case (Some a)
  then show ?thesis by (simp add: loadType_def)
next
  case None
  show ?thesis
  proof (cases "InfoType info")
    case tnone: None
    with None show ?thesis by (simp add: loadType_def)
  next
    case (Some t)
    from processType_total [OF assms, of env pkg None t 0] obtain r p1 where
      "processType env pkg None t 0 p = Some (r, p1)" by blast
    with None Some show ?thesis by (simp add: loadType_def)
  qed
qed

lemma loadType_inv:
  assumes "loadType env pkg info p = Some (Inr (r, p1))" and wf: "wellFormed p"
  shows "wellFormed p1" "groupVersions p1 = groupVersions p" "\<exists>a. r = Some a \<and> a < length (heap p1)"
    "consistent p \<Longrightarrow> consistent p1"
proof -
  have "wellFormed p1 \<and> groupVersions p1 = groupVersions p \<and>
        (\<exists>a. r = Some a \<and> a < length (heap p1)) \<and> (consistent p \<longrightarrow> consistent p1)"
    using assms(1)
  proof (cases rule: loadType_cases)
    case (known a)
    with wf wf_types_valid [OF wf known(1)] show ?thesis by simp
  next
    case untyped
    then show ?thesis by simp
  next
    case (resolved t a q)
    then have eq: "r = Some a" "p1 = q" by simp_all
    from processType_total [OF wf, of env pkg None t 0] resolved(3)
    have "wellFormed q" "a < length (heap q)" by (simp_all add: resolved_def)
    moreover have "groupVersions q = groupVersions p"
      using processType_frame [OF resolved(3)] by (rule frame_groupVersions)
    moreover have "consistent p \<longrightarrow> consistent q"
      using processType_consistent [OF resolved(3)] by blast
    ultimately show ?thesis unfolding eq by simp
  qed
  then show "wellFormed p1" "groupVersions p1 = groupVersions p"
    "\<exists>a. r = Some a \<and> a < length (heap p1)" "consistent p \<Longrightarrow> consistent p1" by blast+
qed

lemma wf_gvUpdate [simp]: "wellFormed (gvUpdate gv f p) = wellFormed p"
  by (rule wf_same) simp_all

lemma consistent_gvUpdate [simp]: "consistent (gvUpdate gv f p) = consistent p"
  by (rule consistent_same) simp_all

lemma eachType_cases [consumes 1, case_names ignored unexported failed plain root]:
  assumes "eachType env pkg gv info p = Some res"
  obtains
    (ignored) "shouldIgnoreType env (pkg @ ''.'' @ InfoName info)" "res = Inr p"
  | (unexported) "\<not> shouldIgnoreType env (pkg @ ''.'' @ InfoName info)" "\<not> InfoExported info"
      "res = Inr p"
  | (failed) e where "\<not> shouldIgnoreType env (pkg @ ''.'' @ InfoName info)" "InfoExported info"
      "loadType env pkg info p = Some (Inl e)" "res = Inl e"
  | (plain) a p1 where "\<not> shouldIgnoreType env (pkg @ ''.'' @ InfoName info)" "InfoExported info"
      "loadType env pkg info p = Some (Inr (Some a, p1))" "\<not> InfoRoot info"
      "res = Inr (if Kind (heap p1 ! a) \<noteq> BasicKind
                  then gvUpdate gv (\<lambda>i. i\<lparr> gvtypes := assign (InfoName info) a (gvtypes i) \<rparr>) p1
                  else p1)"
  | (root) a p1 where "\<not> shouldIgnoreType env (pkg @ ''.'' @ InfoName info)" "InfoExported info"
      "loadType env pkg info p = Some (Inr (Some a, p1))" "InfoRoot info"
      "res = Inr (upd a (\<lambda>n. n\<lparr> GVK := Some (fst gv, snd gv, InfoName info) \<rparr>)
                (gvUpdate gv (\<lambda>i. i\<lparr> kinds := List.insert (InfoName info) (kinds i) \<rparr>)
                   (if Kind (heap p1 ! a) \<noteq> BasicKind
                    then gvUpdate gv (\<lambda>i. i\<lparr> gvtypes := assign (InfoName info) a (gvtypes i) \<rparr>) p1
                    else p1)))"
proof (cases "shouldIgnoreType env (pkg @ ''.'' @ InfoName info)")
  case True
  with assms have "res = Inr p" by (simp add: eachType_def)
  with True show ?thesis by (rule ignored)
next
  case ni: False
  show ?thesis
  proof (cases "InfoExported info")
    case False
    with assms ni have "res = Inr p" by (simp add: eachType_def)
    with ni False show ?thesis by (rule unexported)
  next
    case ex: True
    from assms ni ex obtain lres where l: "loadType env pkg info p = Some lres"
      by (auto simp: eachType_def split: option.splits)
    show ?thesis
    proof (cases lres)
      case (Inl e)
      with assms ni ex l have "res = Inl e" by (simp add: eachType_def)
      with ni ex l Inl show ?thesis by (intro failed) simp_all
    next
      case (Inr rp)
      obtain r p1 where rp: "rp = (r, p1)" by (cases rp)
      from l Inr rp have l': "loadType env pkg info p = Some (Inr (r, p1))" by simp
      from l' obtain a where a: "r = Some a"
        by (cases rule: loadType_cases) auto
      show ?thesis
      proof (cases "InfoRoot info")
        case False
        with assms ni ex l' a have "res = Inr (if Kind (heap p1 ! a) \<noteq> BasicKind
                  then gvUpdate gv (\<lambda>i. i\<lparr> gvtypes := assign (InfoName info) a (gvtypes i) \<rparr>) p1
                  else p1)"
          by (simp add: eachType_def Let_def)
        with ni ex l' a False show ?thesis by (intro plain) simp_all
      next
        case True
        with assms ni ex l' a have "res = Inr (upd a (\<lambda>n. n\<lparr> GVK := Some (fst gv, snd gv, InfoName info) \<rparr>)
                (gvUpdate gv (\<lambda>i. i\<lparr> kinds := List.insert (InfoName info) (kinds i) \<rparr>)
                   (if Kind (heap p1 ! a) \<noteq> BasicKind
                    then gvUpdate gv (\<lambda>i. i\<lparr> gvtypes := assign (InfoName info) a (gvtypes i) \<rparr>) p1
                    else p1)))"
          by (simp add: eachType_def Let_def)
        with ni ex l' a True show ?thesis by (intro root) simp_all
      qed
    qed
  qed
qed

lemma eachType_inv:
  assumes "eachType env pkg gv info p = Some (Inr p')" and wf: "wellFormed p" and co: "consistent p"
  shows "wellFormed p' \<and> consistent p'"
  using assms(1)
proof (cases rule: eachType_cases)
  case ignored
  with wf co show ?thesis by simp
next
  case unexported
  with wf co show ?thesis by simp
next
  case (failed e)
  then show ?thesis by simp
next
  case (plain a p1)
  note l = loadType_inv [OF plain(3) wf]
  from plain(5) l(1) l(4) [OF co] show ?thesis by (simp split: if_splits)
next
  case (root a p1)
  note l = loadType_inv [OF root(3) wf]
  let ?q = "gvUpdate gv (\<lambda>i. i\<lparr> kinds := List.insert (InfoName info) (kinds i) \<rparr>)
                   (if Kind (heap p1 ! a) \<noteq> BasicKind
                    then gvUpdate gv (\<lambda>i. i\<lparr> gvtypes := assign (InfoName info) a (gvtypes i) \<rparr>) p1
                    else p1)"
  have "wellFormed ?q" "consistent ?q" using l(1) l(4) [OF co] by simp_all
  then have "wellFormed (upd a (\<lambda>n. n\<lparr> GVK := Some (fst gv, snd gv, InfoName info) \<rparr>) ?q)"
    "consistent (upd a (\<lambda>n. n\<lparr> GVK := Some (fst gv, snd gv, InfoName info) \<rparr>) ?q)"
    by (auto intro: wf_upd_same consistent_upd simp: linksOf_def)
  with root(5) show ?thesis by simp
qed

lemma eachTypes_inv:
  "eachTypes env pkg gv infos p = Some (Inr p') \<Longrightarrow> wellFormed p \<Longrightarrow> consistent p \<Longrightarrow>
     wellFormed p' \<and> consistent p'"
proof (induction infos arbitrary: p)
  case Nil
  then show ?case by simp
next
  case (Cons info infos)
  from Cons.prems(1) obtain p1 where 1: "eachType env pkg gv info p = Some (Inr p1)"
    and 2: "eachTypes env pkg gv infos p1 = Some (Inr p')"
    by (auto split: option.splits sum.splits)
  from eachType_inv [OF 1 Cons.prems(2,3)] Cons.IH [OF 2] show ?case by blast
qed

lemma findAPITypes_inv:
  "findAPITypes env pkgs p = Some (Inr p') \<Longrightarrow> wellFormed p \<Longrightarrow> consistent p \<Longrightarrow>
     wellFormed p' \<and> consistent p'"
proof (induction pkgs arbitrary: p)
  case Nil
  then show ?case by simp
next
  case (Cons pkg pkgs)
  show ?case
  proof (cases "extractGroupVersionIfExists pkg")
    case None
    with Cons show ?thesis by simp
  next
    case (Some gvInfo)
    show ?thesis
    proof (cases "shouldIgnoreGroupVersion env (GroupVersionString (Group gvInfo, Version gvInfo))")
      case True
      with Cons Some show ?thesis by simp
    next
      case False
      let ?gv = "(Group gvInfo, Version gvInfo)"
      let ?p1 = "case map_of (groupVersions p) ?gv of
                        Some existing \<Rightarrow> p
                      | None \<Rightarrow> p\<lparr> groupVersions := groupVersions p @ [(?gv, gvInfo)] \<rparr>"
      have h: "heap ?p1 = heap p" "types ?p1 = types p" by (simp_all split: option.splits)
      have wf1: "wellFormed ?p1" using Cons.prems(2) wf_same [OF h] by simp
      have co1: "consistent ?p1" using Cons.prems(3) consistent_same [OF h] by simp
      from Cons.prems(1) Some False obtain p2 where
        1: "eachTypes env (PkgPath pkg) ?gv (PkgTypes pkg) ?p1 = Some (Inr p2)"
        and 2: "findAPITypes env pkgs p2 = Some (Inr p')"
        by (auto simp: Let_def split: option.splits sum.splits)
      from eachTypes_inv [OF 1 wf1 co1] Cons.IH [OF 2] show ?thesis by blast
    qed
  qed
qed

section \<open>Concrete runs\<close>

lemma exS_run:
  "case processType envST ''p'' None (Named ''p'' ''S'') 0 newProcessor of
     None \<Rightarrow> False
   | Some (r, q) \<Rightarrow>
       r = Some 0 \<and>
       (case resolveAll envST [(''p'', None, Named ''p'' ''T'', 0)] q of
          None \<Rightarrow> False
        | Some q' \<Rightarrow> True)"
  by code_simp

lemma exS_eq: "processType envST ''p'' None (Named ''p'' ''S'') 0 newProcessor = Some (Some 0, exS)"
  using exS_run unfolding exS_def
  by (cases "processType envST ''p'' None (Named ''p'' ''S'') 0 newProcessor") auto


section \<open>Identity and the canonical table\<close>




text \<open>
  C3, corrected. A resolution that returns a node has that node in the canonical table under
  the identity of its descriptor when it returns, provided the depth is within the bound and,
  for a named type of another package, the import is found; so has the resolution of a
  descriptor whose identity is in the table already, which returns the node stored there at
  any depth. When the identity is not in the table, the return beyond the depth bound and
  the return for an import that is not found hand back a new node (of kind \<open>Unknown\<close> in the
  first case, as \<^verbatim>\<open>mkType\<close> and the documentation lookup left it in the second) and leave the
  table as it was: the node returned is not inserted.
\<close>

theorem resolved_node_stored:
  assumes "processType env pkg parentType t depth p = Some (Some a, p')"
  shows "(depth \<le> maxDepth env \<and>
          (\<forall>pk n. t = Named pk n \<longrightarrow> importPkg env pkg (Package (mkType env pkg t)) \<noteq> None) \<longrightarrow>
            types p' (Key (mkType env pkg t)) = Some a) \<and>
         (\<forall>b. types p (Key (mkType env pkg t)) = Some b \<longrightarrow>
            a = b \<and> p' = p \<and> types p' (Key (mkType env pkg t)) = Some a) \<and>
         (types p (Key (mkType env pkg t)) = None \<and> maxDepth env < depth \<longrightarrow>
            a = length (heap p) \<and>
            p' = upd a (\<lambda>n. n\<lparr> Kind := UnknownKind \<rparr>) (fresh env pkg t p) \<and>
            types p' = types p \<and> types p' (Key (mkType env pkg t)) = None) \<and>
         (types p (Key (mkType env pkg t)) = None \<and> depth \<le> maxDepth env \<and>
          (\<exists>pk n. t = Named pk n) \<and> importPkg env pkg (Package (mkType env pkg t)) = None \<longrightarrow>
            a = length (heap p) \<and> p' = fresh env pkg t p \<and>
            types p' = types p \<and> types p' (Key (mkType env pkg t)) = None)"
proof -
  have A: "depth \<le> maxDepth env \<and>
          (\<forall>pk n. t = Named pk n \<longrightarrow> importPkg env pkg (Package (mkType env pkg t)) \<noteq> None) \<longrightarrow>
            types p' (Key (mkType env pkg t)) = Some a"
    using processType_stored [OF assms] by blast
  have B: "\<forall>b. types p (Key (mkType env pkg t)) = Some b \<longrightarrow>
            a = b \<and> p' = p \<and> types p' (Key (mkType env pkg t)) = Some a"
  proof (intro allI impI)
    fix b assume b: "types p (Key (mkType env pkg t)) = Some b"
    from assms [unfolded processType_hit [OF b]] b
    show "a = b \<and> p' = p \<and> types p' (Key (mkType env pkg t)) = Some a" by simp
  qed
  have C: "types p (Key (mkType env pkg t)) = None \<and> maxDepth env < depth \<longrightarrow>
            a = length (heap p) \<and>
            p' = upd a (\<lambda>n. n\<lparr> Kind := UnknownKind \<rparr>) (fresh env pkg t p) \<and>
            types p' = types p \<and> types p' (Key (mkType env pkg t)) = None"
  proof
    assume h: "types p (Key (mkType env pkg t)) = None \<and> maxDepth env < depth"
    then have "processType env pkg parentType t depth p =
       Some (Some (length (heap p)),
             upd (length (heap p)) (\<lambda>n. n\<lparr> Kind := UnknownKind \<rparr>) (fresh env pkg t p))"
      by (simp add: processType_deep)
    with assms have "a = length (heap p)"
      "p' = upd (length (heap p)) (\<lambda>n. n\<lparr> Kind := UnknownKind \<rparr>) (fresh env pkg t p)" by auto
    with h show "a = length (heap p) \<and>
            p' = upd a (\<lambda>n. n\<lparr> Kind := UnknownKind \<rparr>) (fresh env pkg t p) \<and>
            types p' = types p \<and> types p' (Key (mkType env pkg t)) = None" by simp
  qed
  have D: "types p (Key (mkType env pkg t)) = None \<and> depth \<le> maxDepth env \<and>
          (\<exists>pk n. t = Named pk n) \<and> importPkg env pkg (Package (mkType env pkg t)) = None \<longrightarrow>
            a = length (heap p) \<and> p' = fresh env pkg t p \<and>
            types p' = types p \<and> types p' (Key (mkType env pkg t)) = None"
  proof
    assume h: "types p (Key (mkType env pkg t)) = None \<and> depth \<le> maxDepth env \<and>
          (\<exists>pk n. t = Named pk n) \<and> importPkg env pkg (Package (mkType env pkg t)) = None"
    then obtain pk n where t: "t = Named pk n" by blast
    from h have "processType env pkg parentType t depth p =
       Some (Some (length (heap p)), fresh env pkg t p)"
      unfolding t by (simp add: processType_unimported)
    with assms have "a = length (heap p)" "p' = fresh env pkg t p" by auto
    with h show "a = length (heap p) \<and> p' = fresh env pkg t p \<and>
            types p' = types p \<and> types p' (Key (mkType env pkg t)) = None" by simp
  qed
  from A B C D show ?thesis by - (intro conjI, assumption+)
qed

text \<open>
  Three resolutions from the empty processor. \<open>p.S\<close> at depth 0 ends with node 0 stored under
  \<open>p.S\<close>. \<open>string\<close> at depth 3, beyond \<open>maxDepth = 2\<close>, returns the new node 0 and the table stays
  empty. \<open>r.C\<close>, of a package \<open>r\<close> that \<open>p\<close> does not import, returns the new node 0 at depth 0
  and the table stays empty.
\<close>

theorem resolved_node_stored_witness:
  "(processType envST ''p'' None (Named ''p'' ''S'') 0 newProcessor = Some (Some 0, exS) \<and>
    0 \<le> maxDepth envST \<and>
    importPkg envST ''p'' (Package (mkType envST ''p'' (Named ''p'' ''S''))) \<noteq> None \<and>
    Key (mkType envST ''p'' (Named ''p'' ''S'')) = ''p.S'' \<and>
    types exS ''p.S'' = Some 0) \<and>
   (maxDepth envA < 3 \<and>
    processType envA ''p'' None (Basic ''string'') 3 newProcessor =
      Some (Some 0, upd 0 (\<lambda>n. n\<lparr> Kind := UnknownKind \<rparr>)
                      (fresh envA ''p'' (Basic ''string'') newProcessor)) \<and>
    types (upd 0 (\<lambda>n. n\<lparr> Kind := UnknownKind \<rparr>)
             (fresh envA ''p'' (Basic ''string'') newProcessor))
       (Key (mkType envA ''p'' (Basic ''string''))) = None) \<and>
   (0 \<le> maxDepth envA \<and>
    importPkg envA ''p'' (Package (mkType envA ''p'' (Named ''r'' ''C''))) = None \<and>
    processType envA ''p'' None (Named ''r'' ''C'') 0 newProcessor =
      Some (Some 0, fresh envA ''p'' (Named ''r'' ''C'') newProcessor) \<and>
    types (fresh envA ''p'' (Named ''r'' ''C'') newProcessor)
       (Key (mkType envA ''p'' (Named ''r'' ''C''))) = None)"
proof -
  have h2: "0 \<le> maxDepth envST" by code_simp
  have h3: "importPkg envST ''p'' (Package (mkType envST ''p'' (Named ''p'' ''S''))) \<noteq> None"
    by code_simp
  have k: "Key (mkType envST ''p'' (Named ''p'' ''S'')) = ''p.S''" by code_simp
  from resolved_node_stored [OF exS_eq] h2 h3
  have "types exS (Key (mkType envST ''p'' (Named ''p'' ''S''))) = Some 0" by blast
  with exS_eq h2 h3 k have 1:
    "processType envST ''p'' None (Named ''p'' ''S'') 0 newProcessor = Some (Some 0, exS) \<and>
     0 \<le> maxDepth envST \<and>
     importPkg envST ''p'' (Package (mkType envST ''p'' (Named ''p'' ''S''))) \<noteq> None \<and>
     Key (mkType envST ''p'' (Named ''p'' ''S'')) = ''p.S'' \<and>
     types exS ''p.S'' = Some 0" by simp
  have d: "maxDepth envA < 3" by code_simp
  have d0: "0 \<le> maxDepth envA" by code_simp
  have rd: "processType envA ''p'' None (Basic ''string'') 3 newProcessor =
      Some (Some 0, upd 0 (\<lambda>n. n\<lparr> Kind := UnknownKind \<rparr>)
                      (fresh envA ''p'' (Basic ''string'') newProcessor))"
    using processType_deep [of newProcessor envA "''p''" "Basic ''string''" 3 None] d by simp
  from resolved_node_stored [OF rd] d
  have 2: "types (upd 0 (\<lambda>n. n\<lparr> Kind := UnknownKind \<rparr>)
             (fresh envA ''p'' (Basic ''string'') newProcessor))
       (Key (mkType envA ''p'' (Basic ''string''))) = None" by simp
  have i: "importPkg envA ''p'' (Package (mkType envA ''p'' (Named ''r'' ''C''))) = None"
    by code_simp
  have ri: "processType envA ''p'' None (Named ''r'' ''C'') 0 newProcessor =
      Some (Some 0, fresh envA ''p'' (Named ''r'' ''C'') newProcessor)"
    using processType_unimported [of newProcessor envA "''p''" "''r''" "''C''" 0 None] d0 i
    by simp
  from resolved_node_stored [OF ri] d0 i
  have 3: "types (fresh envA ''p'' (Named ''r'' ''C'') newProcessor)
       (Key (mkType envA ''p'' (Named ''r'' ''C''))) = None" by simp
  from 1 d rd 2 d0 i ri 3 show ?thesis by blast
qed

text \<open>
  C3 as stated fails beyond the depth bound: with \<open>maxDepth = 2\<close>, resolving \<open>string\<close> at
  depth 3 returns node 0 of kind \<open>Unknown\<close>, and the table has no entry for its identity.
\<close>

theorem depth_exceeded_not_stored:
  "(case processType envA ''p'' None (Basic ''string'') 3 newProcessor of
      None \<Rightarrow> False
    | Some (r, q) \<Rightarrow>
        r = Some 0 \<and> Kind (heap q ! 0) = UnknownKind \<and>
        types q (Key (mkType envA ''p'' (Basic ''string''))) = None)"
  by code_simp

text \<open>
  C6: the code takes the table shortcut for a struct literal with a parent as for every other
  descriptor. After \<^verbatim>\<open>type S struct { F struct{ X int } }\<close> the table holds the unsupported
  node 2 under the identity \<open>struct{X int}\<close>; resolving \<^verbatim>\<open>type T struct { X int }\<close> then returns
  node 3 for \<open>p.T\<close> of kind \<open>Alias\<close>, without fields, whose underlying type is node 2: the parent
  was not promoted to \<open>Struct\<close> and its fields were not extracted.
\<close>

theorem struct_literal_memo_shortcut:
  "(case processType envST ''p'' None (Named ''p'' ''S'') 0 newProcessor of
      None \<Rightarrow> False
    | Some (r, q) \<Rightarrow>
        types q (Key (mkType envST ''p'' (Struct [Text ''struct{X int}'']))) = Some 2 \<and>
        (case processType envST ''p'' None (Named ''p'' ''T'') 0 q of
           None \<Rightarrow> False
         | Some (r', q') \<Rightarrow>
             r' = Some 3 \<and> Kind (heap q' ! 3) = AliasKind \<and> Fields (heap q' ! 3) = [] \<and>
             UnderlyingType (heap q' ! 3) = Some 2 \<and> Kind (heap q' ! 2) = UnsupportedKind))"
  by code_simp

section \<open>Termination\<close>






end
